theory Spec2Isabelle
  imports Main "HOL-Library.Word" "HOL-Library.Monad_Syntax"
begin

section \<open>Data model of the key-value storage library (KVS.h, KVS.c)\<close>

text \<open>
  Pointers are addresses; \<open>None\<close> is the C \<open>NULL\<close>.  The heap is split by type: table
  objects, entry objects, and the byte memory that holds payload data.

  \<open>common.h\<close>, which declares \<open>cardinal\<close>, \<open>word_t\<close>, \<open>octet_t\<close> and \<open>opaque_t\<close>, is
  not among the sources.  \<open>cardinal\<close> is taken as a 32-bit unsigned integer (KVS.c checks
  that \<open>KVS_MAX_STRING_SIZE\<close> "must not exceed 32 bit" before comparing it with a
  \<open>cardinal\<close>), \<open>octet_t\<close> as a byte, and the width of \<open>word_t\<close>, the type of the
  reference counter, is left open: the entry record takes the counter's type as its
  parameter, and every function below works for a word of any width \<open>'w\<close>.
\<close>

type_synonym addr = nat
type_synonym octet_t = "8 word"
type_synonym cardinal = "32 word"
type_synonym kvs_key_t = "32 word"
type_synonym kvs_data_t = "addr option"

datatype kvs_status_t =
    KVS_STATUS_SUCCESS
  | KVS_STATUS_INVALID_TABLE
  | KVS_STATUS_INVALID_KEY
  | KVS_STATUS_INVALID_DATA
  | KVS_STATUS_INVALID_SIZE
  | KVS_STATUS_KEY_NOT_UNIQUE
  | KVS_STATUS_ALLOCATION_FAILED
  | KVS_STATUS_INVALID_ENTRY
  | KVS_STATUS_ENTRY_NOT_FOUND
  | KVS_STATUS_ENTRY_PENDING_REMOVAL
  | KVS_STATUS_SIZE_OF_ENTRY_UNKNOWN

text \<open>\<open>struct _kvs_entry_s\<close>; the fields \<open>value\<close>, \<open>size\<close> and \<open>next\<close> carry a prime
  because the plain names are taken in Isabelle.\<close>

record 'r kvs_entry_s =
  key :: kvs_key_t
  value' :: kvs_data_t
  size' :: cardinal
  next' :: "addr option"
  ref_count :: 'r
  null_terminated :: bool
  marked_for_removal :: bool

text \<open>\<open>kvs_table_s\<close>; \<open>bucket\<close> is the trailing array of chain heads.\<close>

record kvs_table_s =
  last_retrieved_entry :: "addr option"
  entry_count :: cardinal
  bucket_count :: cardinal
  bucket :: "addr option list"

text \<open>The memory the library works on.  \<open>blocks\<close> records the live \<open>malloc\<close> blocks that
  hold data (base address and requested size): those handed out by \<open>ALLOCATE\<close> and not
  yet given back, and any the caller has obtained from \<open>malloc\<close> itself.\<close>

record 'r kvs_heap =
  tables :: "addr \<rightharpoonup> kvs_table_s"
  entries :: "addr \<rightharpoonup> 'r kvs_entry_s"
  blocks :: "addr \<rightharpoonup> cardinal"
  bytes :: "addr \<Rightarrow> octet_t"

definition KVS_DEFAULT_TABLE_SIZE :: cardinal where
  "KVS_DEFAULT_TABLE_SIZE = 20011"

definition KVS_MAX_STRING_SIZE :: nat where
  "KVS_MAX_STRING_SIZE = 64 * 1024"

text \<open>
  Conventions of the embedding.

  \<^item> Every function returns an \<open>option\<close>: \<open>None\<close> stands for an execution without a
    defined result (a read through a null, dangling or out-of-range pointer, a division
    by zero, or a loop that does not end).
  \<^item> The status cell \<open>kvs_status_t *status\<close> is passed in and returned as a value,
    \<open>None\<close> while nothing has been written to it; \<open>_kvs_set_status\<close> overwrites it.
    The code never reads the cell, so a caller passing \<open>NULL\<close> sees the same behaviour
    and merely has no cell to look at.
  \<^item> The result of each \<open>ALLOCATE\<close> call is a parameter of the function that makes the
    call: \<open>None\<close> when \<open>malloc\<close> fails, the address of the new block otherwise.
  \<^item> \<open>DEALLOCATE\<close> removes the object or block from the heap.  \<open>free\<close> of a pointer
    that is not the base of a live block has no defined result.
  \<^item> The private functions of KVS.c start with an underscore, which an Isabelle name
    cannot; they appear here without it.
\<close>

definition kvs_set_status :: "kvs_status_t option \<Rightarrow> kvs_status_t \<Rightarrow> kvs_status_t option" where
  "kvs_set_status status code = Some code"

section \<open>Chain traversal\<close>

text \<open>The loop
  \<^verbatim>\<open>while ((this_entry->key != key) && (this_entry->next != NULL)) this_entry = this_entry->next;\<close>
  which \<open>_kvs_find_entry\<close>, \<open>kvs_store_value\<close> and \<open>kvs_store_reference\<close> all contain.
  It returns the entry the loop stops at.\<close>

partial_function (option) kvs_chain_scan ::
  "(addr \<rightharpoonup> 'r kvs_entry_s) \<Rightarrow> kvs_key_t \<Rightarrow> addr \<Rightarrow> addr option" where
  "kvs_chain_scan h k this_entry =
     (case h this_entry of
        None \<Rightarrow> None
      | Some e \<Rightarrow>
          if key e \<noteq> k then
            (case next' e of
               None \<Rightarrow> Some this_entry
             | Some n \<Rightarrow> kvs_chain_scan h k n)
          else Some this_entry)"

text \<open>The bucket index \<open>key % this_table->bucket_count\<close> and the read of
  \<open>this_table->bucket[index]\<close>.\<close>

definition kvs_bucket_index :: "kvs_table_s \<Rightarrow> kvs_key_t \<Rightarrow> nat option" where
  "kvs_bucket_index this_table k =
     (if bucket_count this_table = 0 then None
      else Some (unat k mod unat (bucket_count this_table)))"

definition kvs_bucket_at :: "kvs_table_s \<Rightarrow> nat \<Rightarrow> addr option option" where
  "kvs_bucket_at this_table index =
     (if index < length (bucket this_table) then Some (bucket this_table ! index) else None)"

text \<open>A store through a pointer to a table or to an entry (\<open>p->field = x\<close>): the object
  at the address is replaced; the store has no defined result when nothing lives there.\<close>

definition kvs_update_table ::
  "'r kvs_heap \<Rightarrow> addr \<Rightarrow> (kvs_table_s \<Rightarrow> kvs_table_s) \<Rightarrow> 'r kvs_heap option" where
  "kvs_update_table s table f =
     map_option (\<lambda>this_table. s\<lparr>tables := (tables s)(table \<mapsto> f this_table)\<rparr>) (tables s table)"

definition kvs_update_entry ::
  "'r kvs_heap \<Rightarrow> addr \<Rightarrow> ('r kvs_entry_s \<Rightarrow> 'r kvs_entry_s) \<Rightarrow> 'r kvs_heap option" where
  "kvs_update_entry s entry f =
     map_option (\<lambda>e. s\<lparr>entries := (entries s)(entry \<mapsto> f e)\<rparr>) (entries s entry)"

section \<open>Private functions\<close>

text \<open>\<open>_kvs_find_entry\<close>: the cached entry first, then the chain of the key's bucket; a
  hit in the chain is written to the cache.\<close>

definition kvs_find_entry ::
  "'r kvs_heap \<Rightarrow> addr \<Rightarrow> kvs_key_t \<Rightarrow> kvs_status_t option
     \<Rightarrow> (addr option \<times> kvs_status_t option \<times> 'r kvs_heap) option" where
  "kvs_find_entry s table k status =
     do {
       this_table \<leftarrow> tables s table;
       cached \<leftarrow> (case last_retrieved_entry this_table of
                    None \<Rightarrow> Some False
                  | Some c \<Rightarrow> map_option (\<lambda>ce. k = key ce) (entries s c));
       if cached then
         Some (last_retrieved_entry this_table, kvs_set_status status KVS_STATUS_SUCCESS, s)
       else do {
         index \<leftarrow> kvs_bucket_index this_table k;
         head \<leftarrow> kvs_bucket_at this_table index;
         case head of
           None \<Rightarrow> Some (None, kvs_set_status status KVS_STATUS_ENTRY_NOT_FOUND, s)
         | Some first \<Rightarrow> do {
             this_entry \<leftarrow> kvs_chain_scan (entries s) k first;
             e \<leftarrow> entries s this_entry;
             if key e = k then do {
               s1 \<leftarrow> kvs_update_table s table (\<lambda>t. t\<lparr>last_retrieved_entry := Some this_entry\<rparr>);
               Some (Some this_entry, kvs_set_status status KVS_STATUS_SUCCESS, s1)
             }
             else
               Some (None, kvs_set_status status KVS_STATUS_ENTRY_NOT_FOUND, s)
           }
       }
     }"

text \<open>\<open>_kvs_calc_null_terminated_data_size\<close>.  The source scans from
  \<^verbatim>\<open>octet_t *_data = (octet_t *) &data;\<close>
  that is, from the address of its own parameter, not from the address the parameter holds.
  What the loop reads is therefore the object representation of the pointer followed by
  whatever lies behind it in the frame; these bytes are the argument \<open>data_rep\<close>, offset 0
  being the first byte of the parameter.  The payload memory is not read.\<close>

function kvs_calc_size_loop :: "(nat \<Rightarrow> octet_t) \<Rightarrow> cardinal \<Rightarrow> cardinal" where
  "kvs_calc_size_loop data_rep index =
     (if data_rep (unat index) \<noteq> 0 then
        (if unat index < KVS_MAX_STRING_SIZE then kvs_calc_size_loop data_rep (index + 1)
         else 0)
      else index)"
  by pat_completeness auto
termination
proof (relation "measure (\<lambda>(data_rep, index). KVS_MAX_STRING_SIZE - unat index)")
  show "wf (measure (\<lambda>(data_rep :: nat \<Rightarrow> octet_t, index :: cardinal).
              KVS_MAX_STRING_SIZE - unat index))"
    by simp
next
  fix data_rep :: "nat \<Rightarrow> octet_t" and index :: cardinal
  assume "unat index < KVS_MAX_STRING_SIZE"
  moreover from this have "unat (index + 1) = unat index + 1"
    by (simp add: KVS_MAX_STRING_SIZE_def unat_word_ariths)
  ultimately show "((data_rep, index + 1), (data_rep, index))
      \<in> measure (\<lambda>(data_rep, index). KVS_MAX_STRING_SIZE - unat index)"
    by simp
qed

definition kvs_calc_null_terminated_data_size :: "(nat \<Rightarrow> octet_t) \<Rightarrow> cardinal" where
  "kvs_calc_null_terminated_data_size data_rep = kvs_calc_size_loop data_rep 0"

text \<open>The copy loop of \<open>_kvs_new_entry_with_copy\<close> and \<open>_kvs_retrieve_copy\<close>,
  \<^verbatim>\<open>while (index <= size) { target[index] = source[index]; index++; }\<close>
  with \<open>index\<close> a \<open>cardinal\<close> that wraps around.\<close>

partial_function (option) kvs_copy_loop ::
  "(addr \<Rightarrow> octet_t) \<Rightarrow> addr \<Rightarrow> addr \<Rightarrow> cardinal \<Rightarrow> cardinal \<Rightarrow> (addr \<Rightarrow> octet_t) option" where
  "kvs_copy_loop m source target sz index =
     (if index \<le> sz then
        kvs_copy_loop (m(target + unat index := m (source + unat index)))
          source target sz (index + 1)
      else Some m)"

text \<open>\<open>_kvs_new_entry_with_copy\<close>; \<open>entry_alloc\<close> and \<open>value_alloc\<close> are the results of
  \<open>ALLOCATE(sizeof(kvs_entry_s))\<close> and \<open>ALLOCATE(size)\<close>.\<close>

definition kvs_new_entry_with_copy ::
  "'w::len word kvs_heap \<Rightarrow> kvs_key_t \<Rightarrow> addr \<Rightarrow> cardinal \<Rightarrow> bool \<Rightarrow> kvs_status_t option
     \<Rightarrow> addr option \<Rightarrow> addr option
     \<Rightarrow> (addr option \<times> kvs_status_t option \<times> 'w word kvs_heap) option" where
  "kvs_new_entry_with_copy s k v sz nt status entry_alloc value_alloc =
     (case entry_alloc of
        None \<Rightarrow> Some (None, kvs_set_status status KVS_STATUS_ALLOCATION_FAILED, s)
      | Some new_entry \<Rightarrow>
          let s1 = s\<lparr>entries := (entries s)(new_entry \<mapsto>
                     \<lparr>key = k, value' = value_alloc, size' = sz, next' = None, ref_count = 1,
                      null_terminated = nt, marked_for_removal = False\<rparr>)\<rparr>
          in (case value_alloc of
                None \<Rightarrow>
                  Some (None, kvs_set_status status KVS_STATUS_ALLOCATION_FAILED,
                        s1\<lparr>entries := (entries s1)(new_entry := None)\<rparr>)
              | Some target \<Rightarrow> do {
                  m \<leftarrow> kvs_copy_loop (bytes s1) v target sz 0;
                  Some (Some new_entry, kvs_set_status status KVS_STATUS_SUCCESS,
                        s1\<lparr>blocks := (blocks s1)(target \<mapsto> sz), bytes := m\<rparr>)
                }))"

text \<open>\<open>_kvs_new_entry_with_ref\<close>.\<close>

definition kvs_new_entry_with_ref ::
  "'w::len word kvs_heap \<Rightarrow> kvs_key_t \<Rightarrow> addr \<Rightarrow> cardinal \<Rightarrow> bool \<Rightarrow> kvs_status_t option
     \<Rightarrow> addr option
     \<Rightarrow> (addr option \<times> kvs_status_t option \<times> 'w word kvs_heap) option" where
  "kvs_new_entry_with_ref s k v sz nt status entry_alloc =
     (case entry_alloc of
        None \<Rightarrow> Some (None, kvs_set_status status KVS_STATUS_ALLOCATION_FAILED, s)
      | Some new_entry \<Rightarrow>
          Some (Some new_entry, kvs_set_status status KVS_STATUS_SUCCESS,
                s\<lparr>entries := (entries s)(new_entry \<mapsto>
                     \<lparr>key = k, value' = Some v, size' = sz, next' = None, ref_count = 1,
                      null_terminated = nt, marked_for_removal = False\<rparr>)\<rparr>))"

text \<open>\<open>_kvs_retrieve_copy\<close>.  The source declares a local \<open>kvs_entry_s *new_entry\<close>, never
  assigns it, and reads the bytes to copy through it:
  \<^verbatim>\<open>source = new_entry->value;\<close>
  The value this local happens to hold is the argument \<open>new_entry\<close>; \<open>copy_alloc\<close> is the
  result of \<open>ALLOCATE(entry->size)\<close>.\<close>

definition kvs_retrieve_copy ::
  "'r kvs_heap \<Rightarrow> addr \<Rightarrow> kvs_status_t option \<Rightarrow> addr option \<Rightarrow> addr option
     \<Rightarrow> (kvs_data_t \<times> kvs_status_t option \<times> 'r kvs_heap) option" where
  "kvs_retrieve_copy s entry status new_entry copy_alloc =
     do {
       e \<leftarrow> entries s entry;
       case copy_alloc of
         None \<Rightarrow> Some (None, kvs_set_status status KVS_STATUS_ALLOCATION_FAILED, s)
       | Some new_copy \<Rightarrow> do {
           u \<leftarrow> new_entry;
           ue \<leftarrow> entries s u;
           source \<leftarrow> value' ue;
           m \<leftarrow> kvs_copy_loop (bytes s) source new_copy (size' e) 0;
           Some (Some new_copy, kvs_set_status status KVS_STATUS_SUCCESS,
                 s\<lparr>blocks := (blocks s)(new_copy \<mapsto> size' e), bytes := m\<rparr>)
         }
     }"

text \<open>\<open>_kvs_dispose_entry\<close>: \<^verbatim>\<open>DEALLOCATE(entry->value)\<close> is called whenever the pointer is
  not \<open>NULL\<close>, whichever way the entry was stored, then \<^verbatim>\<open>DEALLOCATE(entry)\<close>.  The entry
  does not record whether its value was copied or is the caller's; when the value is not
  the base of a live block, \<open>free\<close> is called on memory that \<open>malloc\<close> did not hand out
  and the call has no defined result.\<close>

definition kvs_dispose_entry ::
  "'r kvs_heap \<Rightarrow> addr option \<Rightarrow> kvs_status_t option
     \<Rightarrow> (kvs_status_t option \<times> 'r kvs_heap) option" where
  "kvs_dispose_entry s entry status =
     (case entry of
        None \<Rightarrow> Some (kvs_set_status status KVS_STATUS_INVALID_ENTRY, s)
      | Some a \<Rightarrow> do {
          e \<leftarrow> entries s a;
          (status1, s1) \<leftarrow>
            (case value' e of
               None \<Rightarrow> Some (status, s)
             | Some p \<Rightarrow>
                 (case blocks s p of
                    None \<Rightarrow> None
                  | Some n \<Rightarrow> Some (kvs_set_status status KVS_STATUS_SUCCESS,
                                    s\<lparr>blocks := (blocks s)(p := None)\<rparr>)));
          Some (status1, s1\<lparr>entries := (entries s1)(a := None)\<rparr>)
        })"

section \<open>Public functions\<close>

text \<open>\<open>kvs_new_table\<close>; \<open>table_alloc\<close> is the result of the \<open>ALLOCATE\<close> call.  The table
  type ends in \<^verbatim>\<open>kvs_entry bucket[0];\<close> so \<^verbatim>\<open>sizeof(kvs_table_s)\<close> covers no chain head, and
  the block requested,
  \<^verbatim>\<open>ALLOCATE(sizeof(kvs_table_s) + sizeof(kvs_entry) * (bucket_count - 1))\<close>
  has room for \<open>bucket_count - 1\<close> heads.  The loop
  \<^verbatim>\<open>for (index = 0; index < bucket_count; index++) new_table->bucket[index] = NULL;\<close>
  then writes \<open>bucket_count\<close> heads.  \<open>kvs_init_buckets b index n\<close> is this loop with
  \<open>n\<close> iterations to go on the heads \<open>b\<close> of the block; a write behind the last head of
  the block has no defined result.  What the heads hold before the loop does not matter,
  each is written before it is read.\<close>

fun kvs_init_buckets :: "addr option list \<Rightarrow> nat \<Rightarrow> nat \<Rightarrow> addr option list option" where
  "kvs_init_buckets b index 0 = Some b"
| "kvs_init_buckets b index (Suc n) =
     (if index < length b then kvs_init_buckets (b[index := None]) (Suc index) n else None)"

definition kvs_new_table ::
  "'r kvs_heap \<Rightarrow> cardinal \<Rightarrow> kvs_status_t option \<Rightarrow> addr option
     \<Rightarrow> (addr option \<times> kvs_status_t option \<times> 'r kvs_heap) option" where
  "kvs_new_table s sz status table_alloc =
     (let bucket_count = (if sz = 0 then KVS_DEFAULT_TABLE_SIZE else sz)
      in case table_alloc of
           None \<Rightarrow> Some (None, kvs_set_status status KVS_STATUS_ALLOCATION_FAILED, s)
         | Some new_table \<Rightarrow> do {
             b \<leftarrow> kvs_init_buckets (replicate (unat (bucket_count - 1)) None) 0
                    (unat bucket_count);
             Some (Some new_table, kvs_set_status status KVS_STATUS_SUCCESS,
                   s\<lparr>tables := (tables s)(new_table \<mapsto>
                        \<lparr>last_retrieved_entry = None, entry_count = 0,
                         bucket_count = bucket_count, bucket = b\<rparr>)\<rparr>)
           })"

text \<open>The second half of \<open>kvs_store_value\<close> and \<open>kvs_store_reference\<close>, from
  \<^verbatim>\<open>index = key % this_table->bucket_count;\<close>
  to the end, which the two functions share word for word but for the function that
  creates the entry.  \<open>mk\<close> is that call, \<open>_kvs_new_entry_with_copy(key, value, size,
  null_terminated, &_status)\<close> or its \<open>_with_ref\<close> counterpart, run on the heap it is given
  with the local \<open>_status\<close> not yet written; \<open>status1\<close> is that local after the call.\<close>

definition kvs_store_link ::
  "'r kvs_heap \<Rightarrow> addr \<Rightarrow> kvs_key_t \<Rightarrow> kvs_status_t option
     \<Rightarrow> ('r kvs_heap \<Rightarrow> (addr option \<times> kvs_status_t option \<times> 'r kvs_heap) option)
     \<Rightarrow> (kvs_status_t option \<times> 'r kvs_heap) option" where
  "kvs_store_link s table k status mk =
     do {
       this_table \<leftarrow> tables s table;
       index \<leftarrow> kvs_bucket_index this_table k;
       head \<leftarrow> kvs_bucket_at this_table index;
       case head of
         None \<Rightarrow> do {
           (new_entry, status1, s1) \<leftarrow> mk s;
           case new_entry of
             None \<Rightarrow> Some (status1, s1)
           | Some n \<Rightarrow> do {
               s2 \<leftarrow> kvs_update_table s1 table (\<lambda>t. t\<lparr>bucket := (bucket t)[index := Some n]\<rparr>);
               s3 \<leftarrow> kvs_update_table s2 table (\<lambda>t. t\<lparr>entry_count := entry_count t + 1\<rparr>);
               Some (kvs_set_status status KVS_STATUS_SUCCESS, s3)
             }
         }
       | Some first \<Rightarrow> do {
           this_entry \<leftarrow> kvs_chain_scan (entries s) k first;
           e \<leftarrow> entries s this_entry;
           if key e \<noteq> k then do {
             (new_entry, status1, s1) \<leftarrow> mk s;
             case new_entry of
               None \<Rightarrow> Some (status1, s1)
             | Some n \<Rightarrow> do {
                 s2 \<leftarrow> kvs_update_entry s1 this_entry (\<lambda>e. e\<lparr>next' := Some n\<rparr>);
                 s3 \<leftarrow> kvs_update_table s2 table (\<lambda>t. t\<lparr>entry_count := entry_count t + 1\<rparr>);
                 Some (kvs_set_status status KVS_STATUS_SUCCESS, s3)
               }
           }
           else Some (kvs_set_status status KVS_STATUS_KEY_NOT_UNIQUE, s)
         }
     }"

text \<open>\<open>kvs_store_value\<close>.  \<open>data_rep\<close> is what \<open>_kvs_calc_null_terminated_data_size\<close>
  reads (see there).\<close>

definition kvs_store_value ::
  "'w::len word kvs_heap \<Rightarrow> addr option \<Rightarrow> kvs_key_t \<Rightarrow> kvs_data_t \<Rightarrow> cardinal \<Rightarrow> bool
     \<Rightarrow> kvs_status_t option \<Rightarrow> (nat \<Rightarrow> octet_t) \<Rightarrow> addr option \<Rightarrow> addr option
     \<Rightarrow> (kvs_status_t option \<times> 'w word kvs_heap) option" where
  "kvs_store_value s table k v sz nt status data_rep entry_alloc value_alloc =
     (case table of
        None \<Rightarrow> Some (kvs_set_status status KVS_STATUS_INVALID_TABLE, s)
      | Some t \<Rightarrow>
          if k = 0 then Some (kvs_set_status status KVS_STATUS_INVALID_KEY, s)
          else (case v of
            None \<Rightarrow> Some (kvs_set_status status KVS_STATUS_INVALID_DATA, s)
          | Some src \<Rightarrow>
              if sz = 0 \<and> nt = False then
                Some (kvs_set_status status KVS_STATUS_INVALID_SIZE, s)
              else if sz = 0 then
                (if nt then
                   (let sz1 = kvs_calc_null_terminated_data_size data_rep
                    in if sz1 = 0 then Some (kvs_set_status status KVS_STATUS_INVALID_SIZE, s)
                       else kvs_store_link s t k status
                              (\<lambda>s'. kvs_new_entry_with_copy s' k src sz1 nt None
                                      entry_alloc value_alloc))
                 else Some (kvs_set_status status KVS_STATUS_INVALID_SIZE, s))
              else kvs_store_link s t k status
                     (\<lambda>s'. kvs_new_entry_with_copy s' k src sz nt None
                             entry_alloc value_alloc)))"

text \<open>\<open>kvs_store_reference\<close>.\<close>

definition kvs_store_reference ::
  "'w::len word kvs_heap \<Rightarrow> addr option \<Rightarrow> kvs_key_t \<Rightarrow> kvs_data_t \<Rightarrow> cardinal \<Rightarrow> bool
     \<Rightarrow> kvs_status_t option \<Rightarrow> (nat \<Rightarrow> octet_t) \<Rightarrow> addr option
     \<Rightarrow> (kvs_status_t option \<times> 'w word kvs_heap) option" where
  "kvs_store_reference s table k v sz nt status data_rep entry_alloc =
     (case table of
        None \<Rightarrow> Some (kvs_set_status status KVS_STATUS_INVALID_TABLE, s)
      | Some t \<Rightarrow>
          if k = 0 then Some (kvs_set_status status KVS_STATUS_INVALID_KEY, s)
          else (case v of
            None \<Rightarrow> Some (kvs_set_status status KVS_STATUS_INVALID_DATA, s)
          | Some src \<Rightarrow>
              if sz = 0 \<and> nt = False then
                Some (kvs_set_status status KVS_STATUS_INVALID_SIZE, s)
              else if sz = 0 \<and> nt then
                (let sz1 = kvs_calc_null_terminated_data_size data_rep
                 in if sz1 = 0 then Some (kvs_set_status status KVS_STATUS_INVALID_SIZE, s)
                    else kvs_store_link s t k status
                           (\<lambda>s'. kvs_new_entry_with_ref s' k src sz1 nt None entry_alloc))
              else kvs_store_link s t k status
                     (\<lambda>s'. kvs_new_entry_with_ref s' k src sz nt None entry_alloc)))"

text \<open>\<open>kvs_entry_exists\<close>.\<close>

definition kvs_entry_exists ::
  "'r kvs_heap \<Rightarrow> addr option \<Rightarrow> kvs_key_t \<Rightarrow> kvs_status_t option
     \<Rightarrow> (bool \<times> kvs_status_t option \<times> 'r kvs_heap) option" where
  "kvs_entry_exists s table k status =
     (case table of
        None \<Rightarrow> Some (False, kvs_set_status status KVS_STATUS_INVALID_TABLE, s)
      | Some t \<Rightarrow> do {
          (this_entry, status1, s1) \<leftarrow> kvs_find_entry s t k status;
          case this_entry of
            None \<Rightarrow> Some (False, status1, s1)
          | Some a \<Rightarrow> do {
              e \<leftarrow> entries s1 a;
              if marked_for_removal e then
                Some (False, kvs_set_status status1 KVS_STATUS_ENTRY_PENDING_REMOVAL, s1)
              else Some (True, status1, s1)
            }
        })"

text \<open>\<open>kvs_get_entry\<close>.  The out-parameters \<open>size\<close> and \<open>null_terminated\<close> are returned
  as the second and third component, \<open>None\<close> when the function does not write them.
  \<open>new_entry\<close> and \<open>copy_alloc\<close> are passed on to \<open>_kvs_retrieve_copy\<close>.\<close>

definition kvs_get_entry ::
  "'w::len word kvs_heap \<Rightarrow> addr option \<Rightarrow> bool \<Rightarrow> kvs_key_t \<Rightarrow> kvs_status_t option
     \<Rightarrow> addr option \<Rightarrow> addr option
     \<Rightarrow> (kvs_data_t \<times> cardinal option \<times> bool option \<times> kvs_status_t option
           \<times> 'w word kvs_heap) option" where
  "kvs_get_entry s table copy k status new_entry copy_alloc =
     (case table of
        None \<Rightarrow> Some (None, None, None, kvs_set_status status KVS_STATUS_INVALID_TABLE, s)
      | Some t \<Rightarrow> do {
          (this_entry, status1, s1) \<leftarrow> kvs_find_entry s t k status;
          case this_entry of
            Some a \<Rightarrow> do {
              e \<leftarrow> entries s1 a;
              if marked_for_removal e then
                Some (None, None, None,
                      kvs_set_status status1 KVS_STATUS_ENTRY_PENDING_REMOVAL, s1)
              else if copy = True then
                (if size' e = 0 then
                   Some (None, None, None,
                         kvs_set_status status1 KVS_STATUS_SIZE_OF_ENTRY_UNKNOWN, s1)
                 else do {
                   (new_copy, status2, s2) \<leftarrow> kvs_retrieve_copy s1 a status1 new_entry copy_alloc;
                   Some (new_copy, Some (size' e), Some (null_terminated e), status2, s2)
                 })
              else do {
                s2 \<leftarrow> kvs_update_entry s1 a (\<lambda>e. e\<lparr>ref_count := ref_count e + 1\<rparr>);
                Some (value' e, Some (size' e), Some (null_terminated e),
                      kvs_set_status status1 KVS_STATUS_SUCCESS, s2)
              }
            }
          | None \<Rightarrow>
              Some (None, None, None, kvs_set_status status1 KVS_STATUS_ENTRY_NOT_FOUND, s1)
        })"

text \<open>\<open>kvs_value_for_key\<close>.\<close>

definition kvs_value_for_key ::
  "'r kvs_heap \<Rightarrow> addr option \<Rightarrow> kvs_key_t \<Rightarrow> kvs_status_t option
     \<Rightarrow> addr option \<Rightarrow> addr option
     \<Rightarrow> (kvs_data_t \<times> kvs_status_t option \<times> 'r kvs_heap) option" where
  "kvs_value_for_key s table k status new_entry copy_alloc =
     (case table of
        None \<Rightarrow> Some (None, kvs_set_status status KVS_STATUS_INVALID_TABLE, s)
      | Some t \<Rightarrow> do {
          (this_entry, status1, s1) \<leftarrow> kvs_find_entry s t k status;
          case this_entry of
            Some a \<Rightarrow> do {
              e \<leftarrow> entries s1 a;
              if marked_for_removal e then
                Some (None, kvs_set_status status1 KVS_STATUS_ENTRY_PENDING_REMOVAL, s1)
              else if size' e = 0 then
                Some (None, kvs_set_status status1 KVS_STATUS_SIZE_OF_ENTRY_UNKNOWN, s1)
              else kvs_retrieve_copy s1 a status1 new_entry copy_alloc
            }
          | None \<Rightarrow> Some (None, kvs_set_status status1 KVS_STATUS_ENTRY_NOT_FOUND, s1)
        })"

text \<open>\<open>kvs_reference_for_key\<close>.\<close>

definition kvs_reference_for_key ::
  "'w::len word kvs_heap \<Rightarrow> addr option \<Rightarrow> kvs_key_t \<Rightarrow> kvs_status_t option
     \<Rightarrow> (kvs_data_t \<times> kvs_status_t option \<times> 'w word kvs_heap) option" where
  "kvs_reference_for_key s table k status =
     (case table of
        None \<Rightarrow> Some (None, kvs_set_status status KVS_STATUS_INVALID_TABLE, s)
      | Some t \<Rightarrow> do {
          (this_entry, status1, s1) \<leftarrow> kvs_find_entry s t k status;
          case this_entry of
            Some a \<Rightarrow> do {
              e \<leftarrow> entries s1 a;
              if marked_for_removal e then
                Some (None, kvs_set_status status1 KVS_STATUS_ENTRY_PENDING_REMOVAL, s1)
              else do {
                s2 \<leftarrow> kvs_update_entry s1 a (\<lambda>e. e\<lparr>ref_count := ref_count e + 1\<rparr>);
                Some (value' e, kvs_set_status status1 KVS_STATUS_SUCCESS, s2)
              }
            }
          | None \<Rightarrow> Some (None, kvs_set_status status1 KVS_STATUS_ENTRY_NOT_FOUND, s1)
        })"

text \<open>\<open>kvs_size_for_key\<close>, \<open>kvs_data_for_key_is_null_terminated\<close> and
  \<open>kvs_reference_count_for_key\<close>; the last converts the \<open>word_t\<close> counter to the
  \<open>cardinal\<close> it returns.\<close>

definition kvs_size_for_key ::
  "'r kvs_heap \<Rightarrow> addr option \<Rightarrow> kvs_key_t \<Rightarrow> kvs_status_t option
     \<Rightarrow> (cardinal \<times> kvs_status_t option \<times> 'r kvs_heap) option" where
  "kvs_size_for_key s table k status =
     (case table of
        None \<Rightarrow> Some (0, kvs_set_status status KVS_STATUS_INVALID_TABLE, s)
      | Some t \<Rightarrow> do {
          (this_entry, status1, s1) \<leftarrow> kvs_find_entry s t k status;
          case this_entry of
            Some a \<Rightarrow> do { e \<leftarrow> entries s1 a; Some (size' e, status1, s1) }
          | None \<Rightarrow> Some (0, status1, s1)
        })"

definition kvs_data_for_key_is_null_terminated ::
  "'r kvs_heap \<Rightarrow> addr option \<Rightarrow> kvs_key_t \<Rightarrow> kvs_status_t option
     \<Rightarrow> (bool \<times> kvs_status_t option \<times> 'r kvs_heap) option" where
  "kvs_data_for_key_is_null_terminated s table k status =
     (case table of
        None \<Rightarrow> Some (False, kvs_set_status status KVS_STATUS_INVALID_TABLE, s)
      | Some t \<Rightarrow> do {
          (this_entry, status1, s1) \<leftarrow> kvs_find_entry s t k status;
          case this_entry of
            Some a \<Rightarrow> do { e \<leftarrow> entries s1 a; Some (null_terminated e, status1, s1) }
          | None \<Rightarrow> Some (False, status1, s1)
        })"

definition kvs_reference_count_for_key ::
  "'w::len word kvs_heap \<Rightarrow> addr option \<Rightarrow> kvs_key_t \<Rightarrow> kvs_status_t option
     \<Rightarrow> (cardinal \<times> kvs_status_t option \<times> 'w word kvs_heap) option" where
  "kvs_reference_count_for_key s table k status =
     (case table of
        None \<Rightarrow> Some (0, kvs_set_status status KVS_STATUS_INVALID_TABLE, s)
      | Some t \<Rightarrow> do {
          (this_entry, status1, s1) \<leftarrow> kvs_find_entry s t k status;
          case this_entry of
            Some a \<Rightarrow> do { e \<leftarrow> entries s1 a; Some (ucast (ref_count e), status1, s1) }
          | None \<Rightarrow> Some (0, status1, s1)
        })"

text \<open>The loop of \<open>kvs_remove_entry\<close>, which also keeps the predecessor:
  \<^verbatim>\<open>while ((this_entry->key != key) && (this_entry->next != NULL)) {
      prev_entry = this_entry; this_entry = this_entry->next; }\<close>\<close>

partial_function (option) kvs_remove_scan ::
  "(addr \<rightharpoonup> 'r kvs_entry_s) \<Rightarrow> kvs_key_t \<Rightarrow> addr \<Rightarrow> addr \<Rightarrow> (addr \<times> addr) option" where
  "kvs_remove_scan h k prev_entry this_entry =
     (case h this_entry of
        None \<Rightarrow> None
      | Some e \<Rightarrow>
          if key e \<noteq> k then
            (case next' e of
               None \<Rightarrow> Some (prev_entry, this_entry)
             | Some n \<Rightarrow> kvs_remove_scan h k this_entry n)
          else Some (prev_entry, this_entry))"

text \<open>\<open>kvs_remove_entry\<close>.\<close>

definition kvs_remove_entry ::
  "'w::len word kvs_heap \<Rightarrow> addr option \<Rightarrow> kvs_key_t \<Rightarrow> kvs_status_t option
     \<Rightarrow> (kvs_status_t option \<times> 'w word kvs_heap) option" where
  "kvs_remove_entry s table k status =
     (case table of
        None \<Rightarrow> Some (kvs_set_status status KVS_STATUS_INVALID_TABLE, s)
      | Some t \<Rightarrow>
          if k = 0 then Some (kvs_set_status status KVS_STATUS_INVALID_KEY, s)
          else do {
            this_table \<leftarrow> tables s t;
            index \<leftarrow> kvs_bucket_index this_table k;
            head \<leftarrow> kvs_bucket_at this_table index;
            case head of
              None \<Rightarrow> Some (kvs_set_status status KVS_STATUS_ENTRY_NOT_FOUND, s)
            | Some first \<Rightarrow> do {
                (prev_entry, this_entry) \<leftarrow> kvs_remove_scan (entries s) k first first;
                e \<leftarrow> entries s this_entry;
                if key e = k then
                  (if ref_count e \<le> 1 then do {
                     s1 \<leftarrow> (if last_retrieved_entry this_table = Some this_entry
                            then kvs_update_table s t (\<lambda>t. t\<lparr>last_retrieved_entry := None\<rparr>)
                            else Some s);
                     s2 \<leftarrow> (if head = Some this_entry
                            then kvs_update_table s1 t
                                   (\<lambda>t. t\<lparr>bucket := (bucket t)[index := next' e]\<rparr>)
                            else kvs_update_entry s1 prev_entry (\<lambda>p. p\<lparr>next' := next' e\<rparr>));
                     (status1, s3) \<leftarrow> kvs_dispose_entry s2 (Some this_entry) status;
                     s4 \<leftarrow> kvs_update_table s3 t (\<lambda>t. t\<lparr>entry_count := entry_count t - 1\<rparr>);
                     Some (status1, s4)
                   }
                   else do {
                     s1 \<leftarrow> kvs_update_entry s this_entry (\<lambda>e. e\<lparr>marked_for_removal := True\<rparr>);
                     Some (kvs_set_status status KVS_STATUS_SUCCESS, s1)
                   })
                else Some (kvs_set_status status KVS_STATUS_ENTRY_NOT_FOUND, s)
              }
          })"

text \<open>\<open>kvs_release_entry\<close>.\<close>

definition kvs_release_entry ::
  "'w::len word kvs_heap \<Rightarrow> addr option \<Rightarrow> kvs_key_t \<Rightarrow> kvs_status_t option
     \<Rightarrow> (kvs_status_t option \<times> 'w word kvs_heap) option" where
  "kvs_release_entry s table k status =
     (case table of
        None \<Rightarrow> Some (kvs_set_status status KVS_STATUS_INVALID_TABLE, s)
      | Some t \<Rightarrow> do {
          (this_entry, status1, s1) \<leftarrow> kvs_find_entry s t k status;
          case this_entry of
            None \<Rightarrow> Some (status1, s1)
          | Some a \<Rightarrow> do {
              e \<leftarrow> entries s1 a;
              if 1 < ref_count e then do {
                s2 \<leftarrow> kvs_update_entry s1 a (\<lambda>e. e\<lparr>ref_count := ref_count e - 1\<rparr>);
                e2 \<leftarrow> entries s2 a;
                if ref_count e2 = 1 \<and> marked_for_removal e2
                then kvs_remove_entry s2 table k status1
                else Some (status1, s2)
              }
              else Some (status1, s1)
            }
        })"

text \<open>\<open>kvs_number_of_buckets\<close> and \<open>kvs_number_of_entries\<close>.\<close>

definition kvs_number_of_buckets :: "'r kvs_heap \<Rightarrow> addr option \<Rightarrow> cardinal option" where
  "kvs_number_of_buckets s table =
     (case table of None \<Rightarrow> Some 0 | Some t \<Rightarrow> map_option bucket_count (tables s t))"


text \<open>The inner loop of \<open>kvs_dispose_table\<close>:
  \<^verbatim>\<open>while (this_entry != NULL) { prev_entry = this_entry; this_entry = this_entry->next;
      _kvs_dispose_entry(prev_entry, NULL); }\<close>\<close>

partial_function (option) kvs_dispose_chain ::
  "'r kvs_heap \<Rightarrow> addr option \<Rightarrow> 'r kvs_heap option" where
  "kvs_dispose_chain s this_entry =
     (case this_entry of
        None \<Rightarrow> Some s
      | Some prev_entry \<Rightarrow>
          (case entries s prev_entry of
             None \<Rightarrow> None
           | Some e \<Rightarrow>
               (case kvs_dispose_entry s (Some prev_entry) None of
                  None \<Rightarrow> None
                | Some (status1, s1) \<Rightarrow> kvs_dispose_chain s1 (next' e))))"

text \<open>The outer loop,
  \<^verbatim>\<open>for (index = 0; index < this_table->entry_count; index++)\<close>
  run from \<open>index\<close> for \<open>n\<close> more rounds.  Its bound is the number of entries, while
  \<open>index\<close> selects a bucket; a bucket beyond the array is a read out of range.  The loop
  writes no field but \<open>bucket[index]\<close>, so the bound is the same in every round.\<close>

fun kvs_dispose_buckets :: "'r kvs_heap \<Rightarrow> addr \<Rightarrow> nat \<Rightarrow> nat \<Rightarrow> 'r kvs_heap option" where
  "kvs_dispose_buckets s table index 0 = Some s"
| "kvs_dispose_buckets s table index (Suc n) =
     do {
       this_table \<leftarrow> tables s table;
       this_entry \<leftarrow> kvs_bucket_at this_table index;
       s1 \<leftarrow> kvs_dispose_chain s this_entry;
       s2 \<leftarrow> kvs_update_table s1 table (\<lambda>t. t\<lparr>bucket := (bucket t)[index := None]\<rparr>);
       kvs_dispose_buckets s2 table (Suc index) n
     }"

text \<open>\<open>kvs_dispose_table\<close>.\<close>

definition kvs_dispose_table ::
  "'r kvs_heap \<Rightarrow> addr option \<Rightarrow> kvs_status_t option
     \<Rightarrow> (kvs_status_t option \<times> 'r kvs_heap) option" where
  "kvs_dispose_table s table status =
     (case table of
        None \<Rightarrow> Some (kvs_set_status status KVS_STATUS_INVALID_TABLE, s)
      | Some t \<Rightarrow> do {
          this_table \<leftarrow> tables s t;
          s1 \<leftarrow> (if entry_count this_table \<noteq> 0
                 then kvs_dispose_buckets s t 0 (unat (entry_count this_table))
                 else Some s);
          Some (kvs_set_status status KVS_STATUS_SUCCESS,
                s1\<lparr>tables := (tables s1)(t := None)\<rparr>)
        })"

section \<open>Well-formed tables\<close>

text \<open>\<open>kvs_chain h p as\<close>: following \<open>next\<close> from the pointer \<open>p\<close> visits exactly the
  allocated entries \<open>as\<close>, in this order, and then reaches \<open>NULL\<close>.\<close>

fun kvs_chain :: "(addr \<rightharpoonup> 'r kvs_entry_s) \<Rightarrow> addr option \<Rightarrow> addr list \<Rightarrow> bool" where
  "kvs_chain h p [] \<longleftrightarrow> p = None"
| "kvs_chain h p (a # as) \<longleftrightarrow>
     p = Some a \<and> (case h a of None \<Rightarrow> False | Some e \<Rightarrow> kvs_chain h (next' e) as)"

text \<open>The key stored at an address (0, which no entry carries, where nothing is allocated).\<close>

definition kvs_key_of :: "(addr \<rightharpoonup> 'r kvs_entry_s) \<Rightarrow> addr \<Rightarrow> kvs_key_t" where
  "kvs_key_of h a = (case h a of None \<Rightarrow> 0 | Some e \<Rightarrow> key e)"

text \<open>Bucket \<open>i\<close> of a table with \<open>n\<close> buckets is in order when its head \<open>p\<close> starts a chain
  \<open>as\<close> whose keys are pairwise different, non-zero and hash to \<open>i\<close>.\<close>

definition kvs_bucket_ok ::
  "(addr \<rightharpoonup> 'r kvs_entry_s) \<Rightarrow> nat \<Rightarrow> nat \<Rightarrow> addr option \<Rightarrow> addr list \<Rightarrow> bool" where
  "kvs_bucket_ok h n i p as \<longleftrightarrow>
     kvs_chain h p as \<and> distinct (map (kvs_key_of h) as) \<and>
     (\<forall>a\<in>set as. kvs_key_of h a \<noteq> 0 \<and> unat (kvs_key_of h a) mod n = i)"

text \<open>The table at address \<open>t\<close> is well formed, with \<open>cs ! i\<close> the entries of bucket \<open>i\<close>:
  it has as many chain heads as \<open>bucket_count\<close> says and at least one, every bucket is in
  order, and the lookup cache is empty or points into one of the chains.  This is the shape
  the store, lookup, release and remove operations keep (lemmas \<open>kvs_store_link_fresh\<close>,
  \<open>kvs_inv_cached\<close>, \<open>kvs_inv_update_entry\<close>, \<open>kvs_remove_entry_unlink\<close> below).  The
  table object of such a table has room for all its \<open>bucket_count\<close> heads, one more than
  \<open>kvs_new_table\<close> asks the allocator for.\<close>

definition kvs_inv :: "'r kvs_heap \<Rightarrow> addr \<Rightarrow> addr list list \<Rightarrow> bool" where
  "kvs_inv s t cs \<longleftrightarrow>
     (case tables s t of
        None \<Rightarrow> False
      | Some this_table \<Rightarrow>
          bucket_count this_table \<noteq> 0 \<and>
          length (bucket this_table) = unat (bucket_count this_table) \<and>
          length cs = length (bucket this_table) \<and>
          (\<forall>i<length cs. kvs_bucket_ok (entries s) (length cs) i (bucket this_table ! i) (cs ! i)) \<and>
          (case last_retrieved_entry this_table of
             None \<Rightarrow> True
           | Some c \<Rightarrow> c \<in> set (concat cs)))"

text \<open>The heap \<open>s\<close> with the lookup cache of table \<open>t\<close> set to \<open>c\<close>.\<close>

definition kvs_cached :: "'r kvs_heap \<Rightarrow> addr \<Rightarrow> addr option \<Rightarrow> 'r kvs_heap" where
  "kvs_cached s t c =
     s\<lparr>tables := (tables s)(t := map_option (\<lambda>this_table.
          this_table\<lparr>last_retrieved_entry := c\<rparr>) (tables s t))\<rparr>"

text \<open>The heap \<open>s\<close> after one more reference to the entry at \<open>a\<close> of table \<open>t\<close> has
  been handed out: the entry is cached and its counter is one higher (modulo the width of
  \<open>word_t\<close>).\<close>

definition kvs_referenced :: "'w::len word kvs_heap \<Rightarrow> addr \<Rightarrow> addr \<Rightarrow> 'w word kvs_heap" where
  "kvs_referenced s t a =
     (kvs_cached s t (Some a))\<lparr>entries := (entries s)(a :=
        map_option (\<lambda>e. e\<lparr>ref_count := ref_count e + 1\<rparr>) (entries s a))\<rparr>"


section \<open>Example heaps\<close>

text \<open>A table of two buckets at address 100 holding keys 2 and 4 (bucket 0) and
  3 (bucket 1), with a 16-bit reference counter.  The payload of key 2 is the four bytes
  \<open>ABCD\<close> at address 5000, that of key 3 the two bytes \<open>xy\<close> at 5200; the entry of key 4
  refers to caller memory at 5100.  The caller also holds the string \<open>hi\<close> with its
  terminating zero at address 4096.\<close>

definition kvs_example :: "16 word kvs_heap" where
  "kvs_example =
     \<lparr>tables = [100 \<mapsto> \<lparr>last_retrieved_entry = None, entry_count = 3, bucket_count = 2,
                         bucket = [Some 200, Some 202]\<rparr>],
      entries = [200 \<mapsto> \<lparr>key = 2, value' = Some 5000, size' = 4, next' = Some 201,
                          ref_count = 1, null_terminated = False,
                          marked_for_removal = False\<rparr>,
                 201 \<mapsto> \<lparr>key = 4, value' = Some 5100, size' = 6, next' = None,
                          ref_count = 3, null_terminated = False,
                          marked_for_removal = False\<rparr>,
                 202 \<mapsto> \<lparr>key = 3, value' = Some 5200, size' = 2, next' = None,
                          ref_count = 1, null_terminated = True,
                          marked_for_removal = False\<rparr>],
      blocks = [5000 \<mapsto> 4, 5200 \<mapsto> 2],
      bytes = (\<lambda>_. 0)(5000 := 65, 5001 := 66, 5002 := 67, 5003 := 68,
                        5200 := 120, 5201 := 121,
                        4096 := 104, 4097 := 105, 4098 := 0)\<rparr>"

definition kvs_example_chains :: "addr list list" where
  "kvs_example_chains = [[200, 201], [202]]"

text \<open>A table of four buckets at address 100 that holds one entry, the two bytes \<open>ab\<close>
  stored by value under key 3, in bucket 3.\<close>

definition kvs_example_sparse :: "16 word kvs_heap" where
  "kvs_example_sparse =
     \<lparr>tables = [100 \<mapsto> \<lparr>last_retrieved_entry = None, entry_count = 1, bucket_count = 4,
                         bucket = [None, None, None, Some 200]\<rparr>],
      entries = [200 \<mapsto> \<lparr>key = 3, value' = Some 5000, size' = 2, next' = None,
                          ref_count = 1, null_terminated = False,
                          marked_for_removal = False\<rparr>],
      blocks = [5000 \<mapsto> 2],
      bytes = (\<lambda>_. 0)(7000 := 97, 7001 := 98, 5000 := 97, 5001 := 98, 5002 := 0)\<rparr>"

text \<open>One possible content of \<open>data_rep\<close>: the parameter is an eight-byte little-endian
  pointer holding the address \<open>p\<close>, and zero bytes follow it.\<close>

definition kvs_pointer_rep :: "addr \<Rightarrow> nat \<Rightarrow> octet_t" where
  "kvs_pointer_rep p i = (if i < 8 then of_nat (p div 256 ^ i) else 0)"

text \<open>A table of four buckets at address 100 without entries, in a heap whose byte memory
  holds the two bytes \<open>ab\<close> at address 7000; and the heap that \<open>kvs_store_value\<close> of these
  two bytes under key 5 makes of it: one entry, in bucket 1, whose chain is \<open>[200]\<close>.\<close>

definition kvs_example_fresh :: "16 word kvs_heap" where
  "kvs_example_fresh =
     \<lparr>tables = [100 \<mapsto> \<lparr>last_retrieved_entry = None, entry_count = 0, bucket_count = 4,
                         bucket = [None, None, None, None]\<rparr>],
      entries = Map.empty, blocks = Map.empty,
      bytes = (\<lambda>_. 0)(7000 := 97, 7001 := 98)\<rparr>"

definition kvs_example_stored :: "16 word kvs_heap" where
  "kvs_example_stored =
     \<lparr>tables = [100 \<mapsto> \<lparr>last_retrieved_entry = None, entry_count = 1, bucket_count = 4,
                         bucket = [None, Some 200, None, None]\<rparr>],
      entries = [200 \<mapsto> \<lparr>key = 5, value' = Some 5000, size' = 2, next' = None,
                          ref_count = 1, null_terminated = False,
                          marked_for_removal = False\<rparr>],
      blocks = [5000 \<mapsto> 2],
      bytes = (\<lambda>_. 0)(7000 := 97, 7001 := 98, 5000 := 97, 5001 := 98, 5002 := 0)\<rparr>"

definition kvs_example_stored_chains :: "addr list list" where
  "kvs_example_stored_chains = [[], [200], [], []]"


section \<open>States a client can reach\<close>

text \<open>Every allocated entry has a reference count of at least one.\<close>

definition kvs_counts_ok :: "'w::len word kvs_heap \<Rightarrow> bool" where
  "kvs_counts_ok s \<longleftrightarrow> (\<forall>a e. entries s a = Some e \<longrightarrow> 1 \<le> ref_count e)"

text \<open>No entry with key \<open>k\<close> has its counter at the largest value of \<open>word_t\<close>: one
  more reference to it does not wrap the counter to zero.\<close>

definition kvs_no_wrap :: "'w::len word kvs_heap \<Rightarrow> kvs_key_t \<Rightarrow> bool" where
  "kvs_no_wrap s k \<longleftrightarrow> (\<forall>a e. entries s a = Some e \<and> key e = k \<longrightarrow> ref_count e + 1 \<noteq> 0)"

text \<open>The heaps a client obtains by calling the public functions of KVS.h, with any
  arguments and any outcome of the allocations, on a heap in which no entry has been stored
  yet; the tables of that first heap are not constrained.  A call without a defined result
  (\<open>None\<close>) leads nowhere.  The two functions that hand out a reference,
  \<open>kvs_reference_for_key\<close> and \<open>kvs_get_entry\<close> without copy, are only called when the
  counter of the key can take one more reference.\<close>

inductive kvs_reachable :: "'w::len word kvs_heap \<Rightarrow> bool" where
  start: "entries s = Map.empty \<Longrightarrow> kvs_reachable s"
| new_table:
    "kvs_reachable s \<Longrightarrow>
     kvs_new_table s sz status table_alloc = Some (r, status', s') \<Longrightarrow>
     kvs_reachable s'"
| store_value:
    "kvs_reachable s \<Longrightarrow>
     kvs_store_value s table k v sz nt status data_rep entry_alloc value_alloc
       = Some (status', s') \<Longrightarrow>
     kvs_reachable s'"
| store_reference:
    "kvs_reachable s \<Longrightarrow>
     kvs_store_reference s table k v sz nt status data_rep entry_alloc = Some (status', s') \<Longrightarrow>
     kvs_reachable s'"
| entry_exists:
    "kvs_reachable s \<Longrightarrow> kvs_entry_exists s table k status = Some (b, status', s') \<Longrightarrow>
     kvs_reachable s'"
| get_entry:
    "kvs_reachable s \<Longrightarrow>
     kvs_get_entry s table copy k status new_entry copy_alloc
       = Some (p, size_out, nt_out, status', s') \<Longrightarrow>
     copy \<or> kvs_no_wrap s k \<Longrightarrow>
     kvs_reachable s'"
| value_for_key:
    "kvs_reachable s \<Longrightarrow>
     kvs_value_for_key s table k status new_entry copy_alloc = Some (p, status', s') \<Longrightarrow>
     kvs_reachable s'"
| reference_for_key:
    "kvs_reachable s \<Longrightarrow> kvs_reference_for_key s table k status = Some (p, status', s') \<Longrightarrow>
     kvs_no_wrap s k \<Longrightarrow>
     kvs_reachable s'"
| size_for_key:
    "kvs_reachable s \<Longrightarrow> kvs_size_for_key s table k status = Some (n, status', s') \<Longrightarrow>
     kvs_reachable s'"
| data_for_key_is_null_terminated:
    "kvs_reachable s \<Longrightarrow>
     kvs_data_for_key_is_null_terminated s table k status = Some (b, status', s') \<Longrightarrow>
     kvs_reachable s'"
| reference_count_for_key:
    "kvs_reachable s \<Longrightarrow>
     kvs_reference_count_for_key s table k status = Some (n, status', s') \<Longrightarrow>
     kvs_reachable s'"
| release_entry:
    "kvs_reachable s \<Longrightarrow> kvs_release_entry s table k status = Some (status', s') \<Longrightarrow>
     kvs_reachable s'"
| remove_entry:
    "kvs_reachable s \<Longrightarrow> kvs_remove_entry s table k status = Some (status', s') \<Longrightarrow>
     kvs_reachable s'"
| dispose_table:
    "kvs_reachable s \<Longrightarrow> kvs_dispose_table s table status = Some (status', s') \<Longrightarrow>
     kvs_reachable s'"

text \<open>A client that calls \<open>kvs_reference_for_key\<close> for the same key \<open>n\<close> times in a row,
  each time with a fresh status cell, and stops at the first call without a defined
  result.\<close>

primrec kvs_reference_repeat ::
  "nat \<Rightarrow> 'w::len word kvs_heap \<Rightarrow> addr option \<Rightarrow> kvs_key_t \<Rightarrow> 'w word kvs_heap option" where
  "kvs_reference_repeat 0 s table k = Some s"
| "kvs_reference_repeat (Suc n) s table k =
     (case kvs_reference_for_key s table k None of
        None \<Rightarrow> None
      | Some (p, status, s1) \<Rightarrow> kvs_reference_repeat n s1 table k)"

section \<open>Lemmas about chains, the invariant and the operations\<close>

lemma kvs_chain_None [simp]: "kvs_chain h None as \<longleftrightarrow> as = []"
  by (cases as) simp_all

lemma kvs_chain_allocated: "kvs_chain h p as \<Longrightarrow> a \<in> set as \<Longrightarrow> \<exists>e. h a = Some e"
  by (induction as arbitrary: p) (auto split: option.splits)

lemma kvs_chain_frame:
  "\<forall>a\<in>set as. map_option next' (h' a) = map_option next' (h a) \<Longrightarrow>
   kvs_chain h' p as = kvs_chain h p as"
proof (induction as arbitrary: p)
  case Nil
  show ?case by simp
next
  case (Cons a as)
  from Cons.prems have hd: "map_option next' (h' a) = map_option next' (h a)"
    and tl: "\<forall>x\<in>set as. map_option next' (h' x) = map_option next' (h x)"
    by simp_all
  show ?case
  proof (cases "h a")
    case None
    with hd have "h' a = None" by simp
    with None show ?thesis by simp
  next
    case (Some e)
    with hd obtain e' where e': "h' a = Some e'" "next' e' = next' e" by auto
    with Some Cons.IH [OF tl] show ?thesis by simp
  qed
qed

lemma kvs_chain_scan_hit:
  "kvs_chain h p (pre @ a # post) \<Longrightarrow> \<forall>x\<in>set pre. kvs_key_of h x \<noteq> k \<Longrightarrow>
   kvs_key_of h a = k \<Longrightarrow> p = Some first \<Longrightarrow> kvs_chain_scan h k first = Some a"
proof (induction pre arbitrary: p first)
  case Nil
  then obtain e where "h a = Some e" "first = a" by (auto split: option.splits)
  with Nil show ?case
    by (subst kvs_chain_scan.simps) (simp add: kvs_key_of_def)
next
  case (Cons x pre)
  from Cons.prems obtain e where e: "first = x" "h x = Some e"
    "kvs_chain h (next' e) (pre @ a # post)"
    by (auto split: option.splits)
  from e(3) obtain n where n: "next' e = Some n" by (cases "next' e") auto
  from Cons.prems have "key e \<noteq> k" using e by (simp add: kvs_key_of_def)
  moreover have "kvs_chain_scan h k n = Some a"
    using Cons.IH [OF e(3) _ Cons.prems(3) n] Cons.prems(2) by simp
  ultimately show ?case using e n
    by (subst kvs_chain_scan.simps) simp
qed

lemma kvs_chain_scan_miss:
  "kvs_chain h p as \<Longrightarrow> \<forall>x\<in>set as. kvs_key_of h x \<noteq> k \<Longrightarrow> p = Some first \<Longrightarrow>
   kvs_chain_scan h k first = Some (last as)"
proof (induction as arbitrary: p first)
  case Nil
  then show ?case by simp
next
  case (Cons x as)
  from Cons.prems obtain e where e: "first = x" "h x = Some e" "kvs_chain h (next' e) as"
    by (auto split: option.splits)
  from Cons.prems e have ne: "key e \<noteq> k" by (simp add: kvs_key_of_def)
  show ?case
  proof (cases "next' e")
    case None
    with e have "as = []" by simp
    with e ne None show ?thesis by (subst kvs_chain_scan.simps) simp
  next
    case (Some n)
    with e have "as \<noteq> []" by auto
    moreover have "kvs_chain_scan h k n = Some (last as)"
      using Cons.IH [OF e(3) _ Some] Cons.prems(2) by simp
    ultimately show ?thesis using e ne Some by (subst kvs_chain_scan.simps) simp
  qed
qed


lemma kvs_remove_scan_miss:
  "kvs_chain h p as \<Longrightarrow> \<forall>x\<in>set as. kvs_key_of h x \<noteq> k \<Longrightarrow> p = Some first \<Longrightarrow>
   \<exists>prev'. kvs_remove_scan h k prev first = Some (prev', last as)"
proof (induction as arbitrary: p first prev)
  case Nil
  then show ?case by simp
next
  case (Cons x as)
  from Cons.prems obtain e where e: "first = x" "h x = Some e" "kvs_chain h (next' e) as"
    by (auto split: option.splits)
  from Cons.prems e have ne: "key e \<noteq> k" by (simp add: kvs_key_of_def)
  show ?case
  proof (cases "next' e")
    case None
    with e have "as = []" by simp
    with e ne None show ?thesis by (subst kvs_remove_scan.simps) simp
  next
    case (Some n)
    with e have "as \<noteq> []" by auto
    moreover have "\<exists>prev'. kvs_remove_scan h k x n = Some (prev', last as)"
      using Cons.IH [OF e(3) _ Some] Cons.prems(2) by simp
    ultimately show ?thesis using e ne Some by (subst kvs_remove_scan.simps) simp
  qed
qed

lemma kvs_inv_table: "kvs_inv s t cs \<Longrightarrow> \<exists>this_table. tables s t = Some this_table"
  unfolding kvs_inv_def by (auto split: option.splits)

lemma kvs_invD:
  assumes "kvs_inv s t cs" "tables s t = Some this_table"
  shows "bucket_count this_table \<noteq> 0"
    and "length (bucket this_table) = unat (bucket_count this_table)"
    and "length cs = unat (bucket_count this_table)"
    and "\<And>i. i < length cs \<Longrightarrow>
       kvs_bucket_ok (entries s) (length cs) i (bucket this_table ! i) (cs ! i)"
    and "\<And>c. last_retrieved_entry this_table = Some c \<Longrightarrow> c \<in> set (concat cs)"
  using assms unfolding kvs_inv_def by (auto split: option.splits)

lemma kvs_invI:
  assumes "tables s t = Some this_table"
    "bucket_count this_table \<noteq> 0"
    "length (bucket this_table) = unat (bucket_count this_table)"
    "length cs = unat (bucket_count this_table)"
    "\<And>i. i < length cs \<Longrightarrow>
       kvs_bucket_ok (entries s) (length cs) i (bucket this_table ! i) (cs ! i)"
    "\<And>c. last_retrieved_entry this_table = Some c \<Longrightarrow> c \<in> set (concat cs)"
  shows "kvs_inv s t cs"
  using assms unfolding kvs_inv_def by (auto split: option.splits)

lemma kvs_inv_index:
  assumes "kvs_inv s t cs" "tables s t = Some this_table"
  shows "kvs_bucket_index this_table k = Some (unat k mod length cs)"
    and "unat k mod length cs < length cs"
    and "kvs_bucket_at this_table (unat k mod length cs)
           = Some (bucket this_table ! (unat k mod length cs))"
proof -
  note d = kvs_invD [OF assms]
  from d(1,3) have "0 < length cs" by (simp add: unat_gt_0)
  with d(1,2,3) show "kvs_bucket_index this_table k = Some (unat k mod length cs)"
    and "unat k mod length cs < length cs"
    and "kvs_bucket_at this_table (unat k mod length cs)
           = Some (bucket this_table ! (unat k mod length cs))"
    by (simp_all add: kvs_bucket_index_def kvs_bucket_at_def)
qed

lemma kvs_bucket_ok_same_key:
  assumes "kvs_bucket_ok h n i p as" "a \<in> set as" "b \<in> set as"
    "kvs_key_of h a = kvs_key_of h b"
  shows "a = b"
proof -
  from assms(1) have "inj_on (kvs_key_of h) (set as)"
    by (simp add: kvs_bucket_ok_def distinct_map)
  with assms(2-4) show ?thesis by (auto dest: inj_onD)
qed

lemma kvs_inv_member:
  assumes "kvs_inv s t cs" "a \<in> set (concat cs)"
  shows "a \<in> set (cs ! (unat (kvs_key_of (entries s) a) mod length cs))"
    and "kvs_key_of (entries s) a \<noteq> 0"
    and "\<exists>e. entries s a = Some e"
proof -
  from assms(2) obtain xs where "xs \<in> set cs" "a \<in> set xs" by auto
  then obtain j where j: "j < length cs" "a \<in> set (cs ! j)"
    by (metis in_set_conv_nth)
  from kvs_inv_table [OF assms(1)] obtain this_table where T: "tables s t = Some this_table"
    by blast
  have ok: "kvs_bucket_ok (entries s) (length cs) j (bucket this_table ! j) (cs ! j)"
    using kvs_invD(4) [OF assms(1) T j(1)] .
  with j(2) have "unat (kvs_key_of (entries s) a) mod length cs = j"
    and nz: "kvs_key_of (entries s) a \<noteq> 0"
    by (simp_all add: kvs_bucket_ok_def)
  with j(2) show "a \<in> set (cs ! (unat (kvs_key_of (entries s) a) mod length cs))"
    and "kvs_key_of (entries s) a \<noteq> 0"
    by simp_all
  from ok j(2) show "\<exists>e. entries s a = Some e"
    by (auto simp: kvs_bucket_ok_def dest: kvs_chain_allocated)
qed

lemma kvs_chain_head:
  "kvs_chain h p as \<Longrightarrow> as \<noteq> [] \<Longrightarrow> p = Some (hd as)"
  by (cases as) simp_all

lemma kvs_find_entry_hit:
  assumes inv: "kvs_inv s t cs"
    and a: "a \<in> set (cs ! (unat k mod length cs))" "kvs_key_of (entries s) a = k"
  shows "kvs_find_entry s t k status
           = Some (Some a, Some KVS_STATUS_SUCCESS, kvs_cached s t (Some a))"
proof -
  let ?i = "unat k mod length cs"
  from kvs_inv_table [OF inv] obtain this_table where T: "tables s t = Some this_table"
    by blast
  note cache = kvs_invD(5) [OF inv T] and ok = kvs_invD(4) [OF inv T]
  note idx = kvs_inv_index [OF inv T, of k]
  note oki = ok [OF idx(2)]
  from oki a(1) obtain e where e: "entries s a = Some e"
    by (auto simp: kvs_bucket_ok_def dest: kvs_chain_allocated)
  with a(2) have ke: "key e = k" by (simp add: kvs_key_of_def)
  show ?thesis
  proof (cases "\<exists>c ce. last_retrieved_entry this_table = Some c \<and> entries s c = Some ce \<and> key ce = k")
    case True
    then obtain c ce where c: "last_retrieved_entry this_table = Some c"
      "entries s c = Some ce" "key ce = k" by blast
    from c have kc: "kvs_key_of (entries s) c = k" by (simp add: kvs_key_of_def)
    from kvs_inv_member(1) [OF inv cache [OF c(1)]] kc have "c \<in> set (cs ! ?i)" by simp
    with oki a kc have "a = c" by (auto intro: kvs_bucket_ok_same_key)
    with c T have "kvs_cached s t (Some a) = s"
      by (simp add: kvs_cached_def fun_upd_idem)
    with c T \<open>a = c\<close> show ?thesis
      by (simp add: kvs_find_entry_def kvs_set_status_def)
  next
    case False
    have cached: "(case last_retrieved_entry this_table of
                    None \<Rightarrow> Some False
                  | Some c \<Rightarrow> map_option (\<lambda>ce. k = key ce) (entries s c)) = Some False"
    proof (cases "last_retrieved_entry this_table")
      case None
      then show ?thesis by simp
    next
      case (Some c)
      from kvs_inv_member(3) [OF inv cache [OF Some]] obtain ce where "entries s c = Some ce"
        by blast
      with Some False show ?thesis by auto
    qed
    from a(1) obtain pre post where split: "cs ! ?i = pre @ a # post"
      by (auto dest: split_list)
    from oki have ch: "kvs_chain (entries s) (bucket this_table ! ?i) (cs ! ?i)"
      and dist: "distinct (map (kvs_key_of (entries s)) (cs ! ?i))"
      by (simp_all add: kvs_bucket_ok_def)
    from dist split a(2) have pre: "\<forall>x\<in>set pre. kvs_key_of (entries s) x \<noteq> k"
      by (auto simp: image_iff)
    from ch split have hd: "bucket this_table ! ?i = Some (hd (cs ! ?i))"
      by (intro kvs_chain_head) simp_all
    have scan: "kvs_chain_scan (entries s) k (hd (cs ! ?i)) = Some a"
      using kvs_chain_scan_hit [OF _ pre a(2) hd] ch split by simp
    show ?thesis
      using T cached idx hd scan e ke
      by (simp add: kvs_find_entry_def kvs_set_status_def kvs_update_table_def
          kvs_cached_def)
  qed
qed

lemma kvs_find_entry_miss:
  assumes inv: "kvs_inv s t cs"
    and miss: "\<forall>x\<in>set (cs ! (unat k mod length cs)). kvs_key_of (entries s) x \<noteq> k"
  shows "kvs_find_entry s t k status = Some (None, Some KVS_STATUS_ENTRY_NOT_FOUND, s)"
proof -
  let ?i = "unat k mod length cs"
  from kvs_inv_table [OF inv] obtain this_table where T: "tables s t = Some this_table"
    by blast
  note cache = kvs_invD(5) [OF inv T] and ok = kvs_invD(4) [OF inv T]
  note idx = kvs_inv_index [OF inv T, of k]
  note oki = ok [OF idx(2)]
  have cached: "(case last_retrieved_entry this_table of
                  None \<Rightarrow> Some False
                | Some c \<Rightarrow> map_option (\<lambda>ce. k = key ce) (entries s c)) = Some False"
  proof (cases "last_retrieved_entry this_table")
    case None
    then show ?thesis by simp
  next
    case (Some c)
    note mem = kvs_inv_member [OF inv cache [OF Some]]
    from mem(3) obtain ce where ce: "entries s c = Some ce" by blast
    have "key ce \<noteq> k"
    proof
      assume "key ce = k"
      with ce have "kvs_key_of (entries s) c = k" by (simp add: kvs_key_of_def)
      with mem(1) miss show False by auto
    qed
    with Some ce show ?thesis by auto
  qed
  from oki have ch: "kvs_chain (entries s) (bucket this_table ! ?i) (cs ! ?i)"
    by (simp add: kvs_bucket_ok_def)
  show ?thesis
  proof (cases "bucket this_table ! ?i")
    case None
    with T cached idx show ?thesis
      by (simp add: kvs_find_entry_def kvs_set_status_def)
  next
    case (Some first)
    with ch have ne: "cs ! ?i \<noteq> []" by auto
    have scan: "kvs_chain_scan (entries s) k first = Some (last (cs ! ?i))"
      using kvs_chain_scan_miss [OF ch miss Some] .
    from ne have lastin: "last (cs ! ?i) \<in> set (cs ! ?i)" by simp
    with ch obtain e where e: "entries s (last (cs ! ?i)) = Some e"
      by (auto dest: kvs_chain_allocated)
    with miss lastin have "key e \<noteq> k" by (auto simp: kvs_key_of_def)
    with T cached idx Some scan e show ?thesis
      by (simp add: kvs_find_entry_def kvs_set_status_def)
  qed
qed

lemma kvs_key_of_frame: "map_option key (h' a) = map_option key (h a) \<Longrightarrow> kvs_key_of h' a = kvs_key_of h a"
  by (cases "h a"; cases "h' a") (auto simp: kvs_key_of_def)

lemma kvs_bucket_ok_frame:
  assumes "\<forall>a\<in>set as. map_option next' (h' a) = map_option next' (h a)"
    and "\<forall>a\<in>set as. map_option key (h' a) = map_option key (h a)"
  shows "kvs_bucket_ok h' n i p as = kvs_bucket_ok h n i p as"
proof -
  have keys: "kvs_key_of h' a = kvs_key_of h a" if "a \<in> set as" for a
    using assms(2) that by (intro kvs_key_of_frame) blast
  then have maps: "map (kvs_key_of h') as = map (kvs_key_of h) as"
    by (intro map_cong) simp_all
  show ?thesis
    unfolding kvs_bucket_ok_def maps kvs_chain_frame [OF assms(1)]
    using keys by auto
qed

lemma kvs_inv_cong:
  "tables s' t = tables s t \<Longrightarrow> entries s' = entries s \<Longrightarrow> kvs_inv s' t cs = kvs_inv s t cs"
  by (simp add: kvs_inv_def cong: option.case_cong)

lemma kvs_cached_simps [simp]:
  "entries (kvs_cached s t c) = entries s"
  "blocks (kvs_cached s t c) = blocks s"
  "bytes (kvs_cached s t c) = bytes s"
  "tables (kvs_cached s t c) t = map_option (\<lambda>T. T\<lparr>last_retrieved_entry := c\<rparr>) (tables s t)"
  by (simp_all add: kvs_cached_def)

lemma kvs_inv_cached:
  assumes inv: "kvs_inv s t cs" and c: "\<And>a. c = Some a \<Longrightarrow> a \<in> set (concat cs)"
  shows "kvs_inv (kvs_cached s t c) t cs"
proof -
  from kvs_inv_table [OF inv] obtain T where T: "tables s t = Some T" by blast
  note d = kvs_invD [OF inv T]
  show ?thesis
  proof (rule kvs_invI)
    show "tables (kvs_cached s t c) t = Some (T\<lparr>last_retrieved_entry := c\<rparr>)"
      using T by simp
  qed (use d c in simp_all)
qed

lemma kvs_inv_update_entry:
  assumes inv: "kvs_inv s t cs" and e: "entries s a = Some e"
    and same: "key e' = key e" "next' e' = next' e"
  shows "kvs_inv (s\<lparr>entries := (entries s)(a \<mapsto> e')\<rparr>) t cs"
proof -
  from kvs_inv_table [OF inv] obtain T where T: "tables s t = Some T" by blast
  note d = kvs_invD [OF inv T]
  have fr: "kvs_bucket_ok ((entries s)(a \<mapsto> e')) n i p as = kvs_bucket_ok (entries s) n i p as"
    for n i p as
    using e same by (intro kvs_bucket_ok_frame) auto
  show ?thesis
  proof (rule kvs_invI)
    show "tables (s\<lparr>entries := (entries s)(a \<mapsto> e')\<rparr>) t = Some T"
      using T by simp
  qed (use d fr in simp_all)
qed

lemma kvs_chain_append:
  assumes "kvs_chain h p as" "as \<noteq> []" "distinct as" "n \<notin> set as"
    "h (last as) = Some el" "next' new = None"
  shows "kvs_chain (h(n \<mapsto> new, last as \<mapsto> el\<lparr>next' := Some n\<rparr>)) p (as @ [n])"
  using assms(1-5)
proof (induction as arbitrary: p)
  case Nil
  then show ?case by simp
next
  case (Cons a as)
  from Cons.prems(1) obtain e where e: "p = Some a" "h a = Some e" "kvs_chain h (next' e) as"
    by (auto split: option.splits)
  show ?case
  proof (cases "as = []")
    case True
    with Cons.prems e assms(6) show ?thesis by simp
  next
    case False
    define H where "H = h(n \<mapsto> new, last as \<mapsto> el\<lparr>next' := Some n\<rparr>)"
    from False Cons.prems have neq: "last as \<noteq> a" "n \<noteq> a" by auto
    then have Ha: "H a = Some e" using e by (simp add: H_def)
    have "kvs_chain H (next' e) (as @ [n])"
      unfolding H_def
      by (rule Cons.IH [OF e(3) False]) (use Cons.prems False in simp_all)
    with Ha e(1) have "kvs_chain H p ((a # as) @ [n])" by simp
    moreover have "h(n \<mapsto> new, last (a # as) \<mapsto> el\<lparr>next' := Some n\<rparr>) = H"
      using False by (simp add: H_def)
    ultimately show ?thesis by (simp only:)
  qed
qed


lemma kvs_bucket_ok_distinct: "kvs_bucket_ok h n i p as \<Longrightarrow> distinct as"
  by (auto simp: kvs_bucket_ok_def distinct_map)

lemma kvs_inv_disjoint:
  assumes inv: "kvs_inv s t cs" and "i < length cs" "j < length cs" "i \<noteq> j"
    "a \<in> set (cs ! i)"
  shows "a \<notin> set (cs ! j)"
proof
  assume aj: "a \<in> set (cs ! j)"
  from kvs_inv_table [OF inv] obtain T where T: "tables s t = Some T" by blast
  from kvs_invD(4) [OF inv T assms(2)] assms(5)
  have "unat (kvs_key_of (entries s) a) mod length cs = i" by (simp add: kvs_bucket_ok_def)
  moreover from kvs_invD(4) [OF inv T assms(3)] aj
  have "unat (kvs_key_of (entries s) a) mod length cs = j" by (simp add: kvs_bucket_ok_def)
  ultimately show False using assms(4) by simp
qed

lemma kvs_concat_nthI: "j < length cs \<Longrightarrow> a \<in> set (cs ! j) \<Longrightarrow> a \<in> set (concat cs)"
  by (auto intro!: bexI [of _ "cs ! j"])

lemma kvs_concat_nthE:
  assumes "a \<in> set (concat cs)" obtains j where "j < length cs" "a \<in> set (cs ! j)"
proof -
  from assms obtain xs where xs: "xs \<in> set cs" "a \<in> set xs" by auto
  from xs(1) obtain j where "j < length cs" "cs ! j = xs" by (auto simp: in_set_conv_nth)
  with xs(2) that show thesis by blast
qed

lemma kvs_bucket_ok_single:
  assumes "key new = k" "next' new = None" "k \<noteq> 0" "unat k mod m = i"
  shows "kvs_bucket_ok (h(n \<mapsto> new)) m i (Some n) [n]"
  using assms by (simp add: kvs_bucket_ok_def kvs_key_of_def)

lemma kvs_bucket_ok_append:
  assumes ok: "kvs_bucket_ok h m i p as" and ne: "as \<noteq> []"
    and fresh: "\<forall>x\<in>set as. kvs_key_of h x \<noteq> k"
    and n: "h n = None" and el: "h (last as) = Some el"
    and new: "key new = k" "next' new = None" "k \<noteq> 0" "unat k mod m = i"
  shows "kvs_bucket_ok (h(n \<mapsto> new, last as \<mapsto> el\<lparr>next' := Some n\<rparr>)) m i p (as @ [n])"
proof -
  define H where "H = h(n \<mapsto> new, last as \<mapsto> el\<lparr>next' := Some n\<rparr>)"
  from ok have ch: "kvs_chain h p as" and dk: "distinct (map (kvs_key_of h) as)"
    and hash: "\<forall>a\<in>set as. kvs_key_of h a \<noteq> 0 \<and> unat (kvs_key_of h a) mod m = i"
    by (simp_all add: kvs_bucket_ok_def)
  from ok have dist: "distinct as" by (rule kvs_bucket_ok_distinct)
  have nin: "n \<notin> set as"
  proof
    assume "n \<in> set as"
    from kvs_chain_allocated [OF ch this] n show False by simp
  qed
  from ne nin have ln: "last as \<noteq> n" by (metis last_in_set)
  have chain: "kvs_chain H p (as @ [n])"
    unfolding H_def by (rule kvs_chain_append [OF ch ne dist nin el new(2)])
  have keys: "kvs_key_of H a = kvs_key_of h a" if "a \<in> set as" for a
  proof (cases "a = last as")
    case True
    with el show ?thesis by (simp add: H_def kvs_key_of_def)
  next
    case False
    with that nin show ?thesis by (auto simp: H_def kvs_key_of_def)
  qed
  have keyn: "kvs_key_of H n = k"
    using ln new(1) by (simp add: H_def kvs_key_of_def)
  have maps: "map (kvs_key_of H) as = map (kvs_key_of h) as"
    using keys by (intro map_cong) simp_all
  have "map (kvs_key_of H) (as @ [n]) = map (kvs_key_of h) as @ [k]"
    using maps keyn by simp
  moreover have "distinct (map (kvs_key_of h) as @ [k])"
    using dk fresh by (auto simp: image_iff)
  ultimately have "distinct (map (kvs_key_of H) (as @ [n]))" by (simp only:)
  moreover have "\<forall>a\<in>set (as @ [n]). kvs_key_of H a \<noteq> 0 \<and> unat (kvs_key_of H a) mod m = i"
    using hash keys keyn new by auto
  ultimately show ?thesis
    using chain unfolding H_def kvs_bucket_ok_def by blast
qed

lemma kvs_store_link_empty:
  assumes inv: "kvs_inv s t cs"
    and k: "k \<noteq> 0"
    and fresh: "\<forall>x\<in>set (cs ! (unat k mod length cs)). kvs_key_of (entries s) x \<noteq> k"
    and mk: "mk s = Some (Some n, status1, s1)"
    and s1: "tables s1 = tables s" "entries s1 = (entries s)(n \<mapsto> new)"
    and new: "key new = k" "next' new = None"
    and n: "entries s n = None"
    and T: "tables s t = Some T"
    and None: "bucket T ! (unat k mod length cs) = None"
  shows "\<exists>s'. kvs_store_link s t k status mk = Some (Some KVS_STATUS_SUCCESS, s') \<and>
              kvs_inv s' t (cs[unat k mod length cs := cs ! (unat k mod length cs) @ [n]]) \<and>
              entries s' n = Some new \<and> blocks s' = blocks s1 \<and> bytes s' = bytes s1 \<and>
              map_option entry_count (tables s' t) = Some (entry_count T + 1)"
proof -
  let ?i = "unat k mod length cs"
  let ?cs' = "cs[?i := cs ! ?i @ [n]]"
  note d = kvs_invD [OF inv T]
  note idx = kvs_inv_index [OF inv T, of k]
  note oki = d(4) [OF idx(2)]
  from oki have ch: "kvs_chain (entries s) (bucket T ! ?i) (cs ! ?i)"
    by (simp add: kvs_bucket_ok_def)
  have notn: "a \<noteq> n" if "a \<in> set (cs ! j)" "j < length cs" for a j
    using kvs_inv_member(3) [OF inv kvs_concat_nthI [OF that(2,1)]] n by auto
  have cache': "c \<in> set (concat ?cs')" if "last_retrieved_entry T = Some c" for c
  proof -
    from d(5) [OF that] obtain j where j: "j < length cs" "c \<in> set (cs ! j)"
      by (rule kvs_concat_nthE)
    then have "c \<in> set (?cs' ! j)" by (cases "j = ?i") simp_all
    with j(1) show ?thesis by (intro kvs_concat_nthI [of j]) simp_all
  qed
  from None ch have empty: "cs ! ?i = []" by simp
  define T' where "T' = T\<lparr>bucket := (bucket T)[?i := Some n],
                          entry_count := entry_count T + 1\<rparr>"
  define s' where "s' = s1\<lparr>tables := (tables s)(t \<mapsto> T')\<rparr>"
  have step1: "kvs_update_table s1 t (\<lambda>t. t\<lparr>bucket := (bucket t)[?i := Some n]\<rparr>)
      = Some (s1\<lparr>tables := (tables s)(t \<mapsto> T\<lparr>bucket := (bucket T)[?i := Some n]\<rparr>)\<rparr>)"
    using T s1(1) by (simp add: kvs_update_table_def)
  have step2: "kvs_update_table
         (s1\<lparr>tables := (tables s)(t \<mapsto> T\<lparr>bucket := (bucket T)[?i := Some n]\<rparr>)\<rparr>) t
         (\<lambda>t. t\<lparr>entry_count := entry_count t + 1\<rparr>) = Some s'"
    by (simp add: kvs_update_table_def s'_def T'_def)
  have run: "kvs_store_link s t k status mk = Some (Some KVS_STATUS_SUCCESS, s')"
    unfolding kvs_store_link_def
    by (simp add: T idx(1,3) None mk step1 step2 kvs_set_status_def)
  have "kvs_inv s' t ?cs'"
  proof (rule kvs_invI)
    show "tables s' t = Some T'" by (simp add: s'_def)
    show "bucket_count T' \<noteq> 0" using d(1) by (simp add: T'_def)
    show "length (bucket T') = unat (bucket_count T')" using d(2) by (simp add: T'_def)
    show "length ?cs' = unat (bucket_count T')" using d(3) by (simp add: T'_def)
    show "c \<in> set (concat ?cs')" if "last_retrieved_entry T' = Some c" for c
      using that cache' by (simp add: T'_def)
    show "kvs_bucket_ok (entries s') (length ?cs') j (bucket T' ! j) (?cs' ! j)"
      if "j < length ?cs'" for j
    proof (cases "j = ?i")
      case True
      have "kvs_bucket_ok ((entries s)(n \<mapsto> new)) (length cs) ?i (Some n) [n]"
        using new k by (intro kvs_bucket_ok_single) simp_all
      moreover have "entries s' = (entries s)(n \<mapsto> new)" using s1 by (simp add: s'_def)
      moreover have "bucket T' ! ?i = Some n" using idx(2) d(2,3) by (simp add: T'_def)
      moreover have "?cs' ! ?i = [n]" using idx(2) empty by simp
      ultimately show ?thesis using True by simp
    next
      case False
      from that have j: "j < length cs" by simp
      have "kvs_bucket_ok ((entries s)(n \<mapsto> new)) (length cs) j (bucket T ! j) (cs ! j)
              = kvs_bucket_ok (entries s) (length cs) j (bucket T ! j) (cs ! j)"
      proof (rule kvs_bucket_ok_frame)
        show "\<forall>a\<in>set (cs ! j). map_option next' (((entries s)(n \<mapsto> new)) a)
                = map_option next' (entries s a)"
          using notn j by auto
        show "\<forall>a\<in>set (cs ! j). map_option key (((entries s)(n \<mapsto> new)) a)
                = map_option key (entries s a)"
          using notn j by auto
      qed
      with d(4) [OF j]
      have "kvs_bucket_ok ((entries s)(n \<mapsto> new)) (length cs) j (bucket T ! j) (cs ! j)"
        by simp
      moreover have "entries s' = (entries s)(n \<mapsto> new)" using s1 by (simp add: s'_def)
      moreover have "bucket T' ! j = bucket T ! j" using False by (simp add: T'_def)
      moreover have "?cs' ! j = cs ! j" using False by simp
      ultimately show ?thesis by simp
    qed
  qed
  moreover have "entries s' n = Some new" using s1 by (simp add: s'_def)
  moreover have "blocks s' = blocks s1" "bytes s' = bytes s1" by (simp_all add: s'_def)
  moreover have "map_option entry_count (tables s' t) = Some (entry_count T + 1)"
    by (simp add: s'_def T'_def)
  ultimately show ?thesis using run by blast
qed

lemma kvs_store_link_chain:
  assumes inv: "kvs_inv s t cs"
    and k: "k \<noteq> 0"
    and fresh: "\<forall>x\<in>set (cs ! (unat k mod length cs)). kvs_key_of (entries s) x \<noteq> k"
    and mk: "mk s = Some (Some n, status1, s1)"
    and s1: "tables s1 = tables s" "entries s1 = (entries s)(n \<mapsto> new)"
    and new: "key new = k" "next' new = None"
    and n: "entries s n = None"
    and T: "tables s t = Some T"
    and Some: "bucket T ! (unat k mod length cs) = Some first"
  shows "\<exists>s'. kvs_store_link s t k status mk = Some (Some KVS_STATUS_SUCCESS, s') \<and>
              kvs_inv s' t (cs[unat k mod length cs := cs ! (unat k mod length cs) @ [n]]) \<and>
              entries s' n = Some new \<and> blocks s' = blocks s1 \<and> bytes s' = bytes s1 \<and>
              map_option entry_count (tables s' t) = Some (entry_count T + 1)"
proof -
  let ?i = "unat k mod length cs"
  let ?cs' = "cs[?i := cs ! ?i @ [n]]"
  note d = kvs_invD [OF inv T]
  note idx = kvs_inv_index [OF inv T, of k]
  note oki = d(4) [OF idx(2)]
  from oki have ch: "kvs_chain (entries s) (bucket T ! ?i) (cs ! ?i)"
    by (simp add: kvs_bucket_ok_def)
  have notn: "a \<noteq> n" if "a \<in> set (cs ! j)" "j < length cs" for a j
    using kvs_inv_member(3) [OF inv kvs_concat_nthI [OF that(2,1)]] n by auto
  have cache': "c \<in> set (concat ?cs')" if "last_retrieved_entry T = Some c" for c
  proof -
    from d(5) [OF that] obtain j where j: "j < length cs" "c \<in> set (cs ! j)"
      by (rule kvs_concat_nthE)
    then have "c \<in> set (?cs' ! j)" by (cases "j = ?i") simp_all
    with j(1) show ?thesis by (intro kvs_concat_nthI [of j]) simp_all
  qed
  from Some ch have ne: "cs ! ?i \<noteq> []" by auto
  let ?l = "last (cs ! ?i)"
  from ne have lin: "?l \<in> set (cs ! ?i)" by simp
  from kvs_chain_allocated [OF ch lin] obtain el where el: "entries s ?l = Some el" by blast
  from lin fresh el have kel: "key el \<noteq> k" by (auto simp: kvs_key_of_def)
  from el n have ln: "?l \<noteq> n" by auto
  have scan: "kvs_chain_scan (entries s) k first = Some ?l"
    by (rule kvs_chain_scan_miss [OF ch fresh Some])
  define T' where "T' = T\<lparr>entry_count := entry_count T + 1\<rparr>"
  define H where "H = (entries s)(n \<mapsto> new, ?l \<mapsto> el\<lparr>next' := Some n\<rparr>)"
  define s' where "s' = s1\<lparr>entries := H, tables := (tables s)(t \<mapsto> T')\<rparr>"
  have step1: "kvs_update_entry s1 ?l (\<lambda>e. e\<lparr>next' := Some n\<rparr>) = Some (s1\<lparr>entries := H\<rparr>)"
    using el ln s1(2) by (simp add: kvs_update_entry_def H_def)
  have step2: "kvs_update_table (s1\<lparr>entries := H\<rparr>) t
         (\<lambda>t. t\<lparr>entry_count := entry_count t + 1\<rparr>) = Some s'"
    using T s1(1) by (simp add: kvs_update_table_def s'_def T'_def)
  have run: "kvs_store_link s t k status mk = Some (Some KVS_STATUS_SUCCESS, s')"
    unfolding kvs_store_link_def
    by (simp add: T idx(1,3) Some scan el kel mk step1 step2 kvs_set_status_def)
  have "kvs_inv s' t ?cs'"
  proof (rule kvs_invI)
    show "tables s' t = Some T'" by (simp add: s'_def)
    show "bucket_count T' \<noteq> 0" using d(1) by (simp add: T'_def)
    show "length (bucket T') = unat (bucket_count T')" using d(2) by (simp add: T'_def)
    show "length ?cs' = unat (bucket_count T')" using d(3) by (simp add: T'_def)
    show "c \<in> set (concat ?cs')" if "last_retrieved_entry T' = Some c" for c
      using that cache' by (simp add: T'_def)
    show "kvs_bucket_ok (entries s') (length ?cs') j (bucket T' ! j) (?cs' ! j)"
      if "j < length ?cs'" for j
    proof (cases "j = ?i")
      case True
      have "kvs_bucket_ok H (length cs) ?i (bucket T ! ?i) (cs ! ?i @ [n])"
        unfolding H_def
        by (rule kvs_bucket_ok_append [OF oki ne fresh n el new k]) simp
      moreover have "entries s' = H" by (simp add: s'_def)
      moreover have "bucket T' = bucket T" by (simp add: T'_def)
      moreover have "?cs' ! ?i = cs ! ?i @ [n]" using idx(2) by simp
      ultimately show ?thesis using True by simp
    next
      case False
      from that have j: "j < length cs" by simp
      have lj: "?l \<notin> set (cs ! j)"
        using kvs_inv_disjoint [OF inv idx(2) j _ lin] False by auto
      have "kvs_bucket_ok H (length cs) j (bucket T ! j) (cs ! j)
              = kvs_bucket_ok (entries s) (length cs) j (bucket T ! j) (cs ! j)"
      proof (rule kvs_bucket_ok_frame)
        show "\<forall>a\<in>set (cs ! j). map_option next' (H a) = map_option next' (entries s a)"
          using notn j lj by (auto simp: H_def)
        show "\<forall>a\<in>set (cs ! j). map_option key (H a) = map_option key (entries s a)"
          using notn j lj by (auto simp: H_def)
      qed
      with d(4) [OF j] have "kvs_bucket_ok H (length cs) j (bucket T ! j) (cs ! j)" by simp
      moreover have "entries s' = H" by (simp add: s'_def)
      moreover have "bucket T' = bucket T" by (simp add: T'_def)
      moreover have "?cs' ! j = cs ! j" using False by simp
      ultimately show ?thesis by simp
    qed
  qed
  moreover have "entries s' n = Some new" using ln by (simp add: s'_def H_def)
  moreover have "blocks s' = blocks s1" "bytes s' = bytes s1" by (simp_all add: s'_def)
  moreover have "map_option entry_count (tables s' t) = Some (entry_count T + 1)"
    by (simp add: s'_def T'_def)
  ultimately show ?thesis using run by blast
qed

lemma kvs_store_link_fresh:
  assumes inv: "kvs_inv s t cs"
    and k: "k \<noteq> 0"
    and fresh: "\<forall>x\<in>set (cs ! (unat k mod length cs)). kvs_key_of (entries s) x \<noteq> k"
    and mk: "mk s = Some (Some n, status1, s1)"
    and s1: "tables s1 = tables s" "entries s1 = (entries s)(n \<mapsto> new)"
    and new: "key new = k" "next' new = None"
    and n: "entries s n = None"
    and T: "tables s t = Some T"
  shows "\<exists>s'. kvs_store_link s t k status mk = Some (Some KVS_STATUS_SUCCESS, s') \<and>
              kvs_inv s' t (cs[unat k mod length cs := cs ! (unat k mod length cs) @ [n]]) \<and>
              entries s' n = Some new \<and> blocks s' = blocks s1 \<and> bytes s' = bytes s1 \<and>
              map_option entry_count (tables s' t) = Some (entry_count T + 1)"
proof (cases "bucket T ! (unat k mod length cs)")
  case None
  show ?thesis
    by (rule kvs_store_link_empty [where mk = mk and s = s, OF inv k fresh mk s1 new n T None])
next
  case (Some first)
  show ?thesis
    by (rule kvs_store_link_chain [where mk = mk and s = s, OF inv k fresh mk s1 new n T Some])
qed

lemma kvs_example_inv: "kvs_inv kvs_example 100 kvs_example_chains"
proof -
  have two: "Suc (Suc 0) = 2" by simp
  show ?thesis
    by (simp add: kvs_example_def kvs_example_chains_def kvs_inv_def kvs_bucket_ok_def
        kvs_key_of_def All_less_Suc)
      (simp add: two)
qed

lemma kvs_example_bucket:
  "kvs_example_chains ! (unat (2 :: kvs_key_t) mod length kvs_example_chains) = [200, 201]"
  "kvs_example_chains ! (unat (4 :: kvs_key_t) mod length kvs_example_chains) = [200, 201]"
  "kvs_example_chains ! (unat (3 :: kvs_key_t) mod length kvs_example_chains) = [202]"
  "kvs_example_chains ! (unat (6 :: kvs_key_t) mod length kvs_example_chains) = [200, 201]"
proof -
  have len: "length kvs_example_chains = 2" by (simp add: kvs_example_chains_def)
  show "kvs_example_chains ! (unat (2 :: kvs_key_t) mod length kvs_example_chains) = [200, 201]"
    "kvs_example_chains ! (unat (4 :: kvs_key_t) mod length kvs_example_chains) = [200, 201]"
    "kvs_example_chains ! (unat (3 :: kvs_key_t) mod length kvs_example_chains) = [202]"
    "kvs_example_chains ! (unat (6 :: kvs_key_t) mod length kvs_example_chains) = [200, 201]"
    unfolding len by (simp_all add: kvs_example_chains_def)
qed

lemma kvs_example_keys:
  "kvs_key_of (entries kvs_example) 200 = 2"
  "kvs_key_of (entries kvs_example) 201 = 4"
  "kvs_key_of (entries kvs_example) 202 = 3"
  by (simp_all add: kvs_example_def kvs_key_of_def)

lemma kvs_inv_zero_key:
  assumes inv: "kvs_inv s t cs"
  shows "\<forall>x\<in>set (cs ! (unat (0 :: kvs_key_t) mod length cs)). kvs_key_of (entries s) x \<noteq> 0"
proof -
  from kvs_inv_table [OF inv] obtain T where T: "tables s t = Some T" by blast
  from kvs_invD(4) [OF inv T kvs_inv_index(2) [OF inv T, of 0]]
  show ?thesis by (simp add: kvs_bucket_ok_def)
qed

lemma kvs_store_link_duplicate:
  assumes inv: "kvs_inv s t cs"
    and a: "a \<in> set (cs ! (unat k mod length cs))" "kvs_key_of (entries s) a = k"
  shows "kvs_store_link s t k status mk = Some (Some KVS_STATUS_KEY_NOT_UNIQUE, s)"
proof -
  let ?i = "unat k mod length cs"
  from kvs_inv_table [OF inv] obtain T where T: "tables s t = Some T" by blast
  note idx = kvs_inv_index [OF inv T, of k]
  note oki = kvs_invD(4) [OF inv T idx(2)]
  from oki have ch: "kvs_chain (entries s) (bucket T ! ?i) (cs ! ?i)"
    and dist: "distinct (map (kvs_key_of (entries s)) (cs ! ?i))"
    by (simp_all add: kvs_bucket_ok_def)
  from kvs_chain_allocated [OF ch a(1)] a(2) obtain e where e: "entries s a = Some e" "key e = k"
    by (auto simp: kvs_key_of_def)
  from a(1) obtain pre post where split: "cs ! ?i = pre @ a # post"
    by (auto dest: split_list)
  from dist split a(2) have pre: "\<forall>x\<in>set pre. kvs_key_of (entries s) x \<noteq> k"
    by (auto simp: image_iff)
  from ch split have hd: "bucket T ! ?i = Some (hd (cs ! ?i))"
    by (intro kvs_chain_head) simp_all
  have scan: "kvs_chain_scan (entries s) k (hd (cs ! ?i)) = Some a"
    using kvs_chain_scan_hit [OF _ pre a(2) hd] ch split by simp
  show ?thesis
    unfolding kvs_store_link_def
    by (simp add: T idx(1,3) hd scan e kvs_set_status_def)
qed

lemma kvs_inv_entry:
  fixes k :: kvs_key_t
  assumes "kvs_inv s t cs" "a \<in> set (cs ! (unat k mod length cs))"
  shows "a \<in> set (concat cs)"
proof -
  from kvs_inv_table [OF assms(1)] obtain T where T: "tables s t = Some T" by blast
  from kvs_concat_nthI [OF kvs_inv_index(2) [OF assms(1) T, of k] assms(2)] show ?thesis .
qed

lemma kvs_inv_referenced:
  assumes inv: "kvs_inv s t cs" and a: "a \<in> set (concat cs)"
  shows "kvs_inv (kvs_referenced s t a) t cs"
proof -
  from kvs_inv_member(3) [OF inv a] obtain e where e: "entries s a = Some e" by blast
  have c: "kvs_inv (kvs_cached s t (Some a)) t cs"
    using a by (intro kvs_inv_cached [OF inv]) simp
  have "kvs_inv ((kvs_cached s t (Some a))\<lparr>entries :=
          (entries (kvs_cached s t (Some a)))(a \<mapsto> e\<lparr>ref_count := ref_count e + 1\<rparr>)\<rparr>) t cs"
    by (rule kvs_inv_update_entry [OF c]) (simp_all add: e)
  then show ?thesis by (simp add: kvs_referenced_def e)
qed

lemma kvs_reference_for_key_live:
  assumes inv: "kvs_inv s t cs"
    and a: "a \<in> set (cs ! (unat k mod length cs))"
    and e: "entries s a = Some e" "key e = k" "\<not> marked_for_removal e"
  shows "kvs_reference_for_key s (Some t) k status
           = Some (value' e, Some KVS_STATUS_SUCCESS, kvs_referenced s t a)"
proof -
  from e have ka: "kvs_key_of (entries s) a = k" by (simp add: kvs_key_of_def)
  note find = kvs_find_entry_hit [OF inv a ka, of status]
  show ?thesis
    by (simp add: kvs_reference_for_key_def find e kvs_update_entry_def kvs_set_status_def
        kvs_referenced_def)
qed

lemma kvs_get_entry_reference_live:
  assumes inv: "kvs_inv s t cs"
    and a: "a \<in> set (cs ! (unat k mod length cs))"
    and e: "entries s a = Some e" "key e = k" "\<not> marked_for_removal e"
  shows "kvs_get_entry s (Some t) False k status new_entry copy_alloc
           = Some (value' e, Some (size' e), Some (null_terminated e),
                   Some KVS_STATUS_SUCCESS, kvs_referenced s t a)"
proof -
  from e have ka: "kvs_key_of (entries s) a = k" by (simp add: kvs_key_of_def)
  note find = kvs_find_entry_hit [OF inv a ka, of status]
  show ?thesis
    by (simp add: kvs_get_entry_def find e kvs_update_entry_def kvs_set_status_def
        kvs_referenced_def)
qed

lemma kvs_reference_count_for_key_hit:
  assumes inv: "kvs_inv s t cs"
    and a: "a \<in> set (cs ! (unat k mod length cs))"
    and e: "entries s a = Some e" "key e = k"
  shows "kvs_reference_count_for_key s (Some t) k status
           = Some (ucast (ref_count e), Some KVS_STATUS_SUCCESS, kvs_cached s t (Some a))"
proof -
  from e have ka: "kvs_key_of (entries s) a = k" by (simp add: kvs_key_of_def)
  note find = kvs_find_entry_hit [OF inv a ka, of status]
  show ?thesis
    by (simp add: kvs_reference_count_for_key_def find e)
qed



lemma kvs_two_less: "1 < LENGTH('w::len) \<Longrightarrow> (2::nat) < 2 ^ LENGTH('w)"
proof -
  assume "1 < LENGTH('w)"
  then have "(2::nat) ^ 1 < 2 ^ LENGTH('w)" by (intro power_strict_increasing) simp_all
  then show ?thesis by simp
qed

lemma kvs_ucast_two: "1 < LENGTH('w::len) \<Longrightarrow> (ucast (1 + 1 :: 'w word) :: cardinal) = 2"
  using kvs_two_less [where 'w = 'w] by (simp add: take_bit_nat_eq_self)

lemma kvs_example_stored_run:
  "kvs_store_value kvs_example_fresh (Some 100) 5 (Some 7000) 2 False None data_rep
       (Some 200) (Some 5000)
     = Some (Some KVS_STATUS_SUCCESS, kvs_example_stored)"
  by (simp add: kvs_store_value_def kvs_store_link_def kvs_bucket_index_def
      kvs_bucket_at_def kvs_new_entry_with_copy_def kvs_copy_loop.simps kvs_update_table_def
      kvs_set_status_def kvs_example_fresh_def kvs_example_stored_def)

lemma kvs_pointer_rep_4096: "kvs_calc_null_terminated_data_size (kvs_pointer_rep 4096) = 0"
  by (simp add: kvs_calc_null_terminated_data_size_def kvs_pointer_rep_def
      kvs_calc_size_loop.simps)

lemma kvs_pointer_rep_4097: "kvs_calc_null_terminated_data_size (kvs_pointer_rep 4097) = 2"
  by (simp add: kvs_calc_null_terminated_data_size_def kvs_pointer_rep_def
      kvs_calc_size_loop.simps KVS_MAX_STRING_SIZE_def)

lemma kvs_dispose_buckets_numeral:
  "kvs_dispose_buckets s table index (numeral n) =
     do {
       this_table \<leftarrow> tables s table;
       this_entry \<leftarrow> kvs_bucket_at this_table index;
       s1 \<leftarrow> kvs_dispose_chain s this_entry;
       s2 \<leftarrow> kvs_update_table s1 table (\<lambda>t. t\<lparr>bucket := (bucket t)[index := None]\<rparr>);
       kvs_dispose_buckets s2 table (Suc index) (pred_numeral n)
     }"
  by (simp add: numeral_eq_Suc)



lemma kvs_store_link_no_entry:
  assumes inv: "kvs_inv s t cs"
    and fresh: "\<forall>x\<in>set (cs ! (unat k mod length cs)). kvs_key_of (entries s) x \<noteq> k"
    and mk: "mk s = Some (None, status1, s1)"
  shows "kvs_store_link s t k status mk = Some (status1, s1)"
proof -
  let ?i = "unat k mod length cs"
  from kvs_inv_table [OF inv] obtain T where T: "tables s t = Some T" by blast
  note idx = kvs_inv_index [OF inv T, of k]
  from kvs_invD(4) [OF inv T idx(2)]
  have ch: "kvs_chain (entries s) (bucket T ! ?i) (cs ! ?i)"
    by (simp add: kvs_bucket_ok_def)
  show ?thesis
  proof (cases "bucket T ! ?i")
    case None
    then show ?thesis
      unfolding kvs_store_link_def by (simp add: T idx(1,3) mk)
  next
    case (Some first)
    with ch have ne: "cs ! ?i \<noteq> []" by auto
    then have lin: "last (cs ! ?i) \<in> set (cs ! ?i)" by simp
    from kvs_chain_allocated [OF ch lin] obtain el where
      el: "entries s (last (cs ! ?i)) = Some el" by blast
    from lin fresh el have kel: "key el \<noteq> k" by (auto simp: kvs_key_of_def)
    have scan: "kvs_chain_scan (entries s) k first = Some (last (cs ! ?i))"
      by (rule kvs_chain_scan_miss [OF ch fresh Some])
    show ?thesis
      unfolding kvs_store_link_def by (simp add: T idx(1,3) Some scan el kel mk)
  qed
qed

lemma kvs_new_entry_with_copy_failed:
  assumes "entry_alloc = None \<or> (value_alloc = None \<and> (\<forall>n. entry_alloc = Some n \<longrightarrow> entries s n = None))"
  shows "kvs_new_entry_with_copy s k v sz nt status entry_alloc value_alloc
           = Some (None, Some KVS_STATUS_ALLOCATION_FAILED, s)"
proof (cases entry_alloc)
  case None
  then show ?thesis by (simp add: kvs_new_entry_with_copy_def kvs_set_status_def)
next
  case (Some n)
  with assms have va: "value_alloc = None" and n: "entries s n = None" by simp_all
  have "(entries s)(n := None) = entries s" using n by (simp add: fun_upd_idem)
  with Some va show ?thesis
    by (simp add: kvs_new_entry_with_copy_def kvs_set_status_def Let_def)
qed







lemma kvs_cached_table:
  "tables s t = Some T \<Longrightarrow> tables (kvs_cached s t c) t = Some (T\<lparr>last_retrieved_entry := c\<rparr>)"
  by simp

lemma kvs_cached_idem [simp]: "kvs_cached (kvs_cached s t c) t c' = kvs_cached s t c'"
  by (simp add: kvs_cached_def fun_eq_iff option.map_comp comp_def)

lemma kvs_release_entry_floor:
  assumes inv: "kvs_inv s t cs"
    and a: "a \<in> set (cs ! (unat k mod length cs))"
    and e: "entries s a = Some e" "key e = k" "ref_count e = 1"
  shows "kvs_release_entry s (Some t) k status
           = Some (Some KVS_STATUS_SUCCESS, kvs_cached s t (Some a))"
proof -
  from e have ka: "kvs_key_of (entries s) a = k" by (simp add: kvs_key_of_def)
  note find = kvs_find_entry_hit [OF inv a ka, of status]
  show ?thesis
    by (simp add: kvs_release_entry_def find e)
qed




lemma kvs_find_entry_entries:
  assumes "kvs_find_entry s t k status = Some (r, status', s')"
  shows "entries s' = entries s"
    and "blocks s' = blocks s"
    and "\<And>a. r = Some a \<Longrightarrow> \<exists>e. entries s a = Some e \<and> key e = k"
proof -
  from assms show "entries s' = entries s"
    by (auto simp: kvs_find_entry_def kvs_update_table_def bind_eq_Some_conv
        split: option.splits if_splits)
  from assms show "blocks s' = blocks s"
    by (auto simp: kvs_find_entry_def kvs_update_table_def bind_eq_Some_conv
        split: option.splits if_splits)
  fix a assume "r = Some a"
  with assms show "\<exists>e. entries s a = Some e \<and> key e = k"
    by (auto simp: kvs_find_entry_def kvs_update_table_def bind_eq_Some_conv
        split: option.splits if_splits)
qed

lemma kvs_counts_ok_update:
  "kvs_counts_ok s \<Longrightarrow> 1 \<le> ref_count e' \<Longrightarrow>
   kvs_counts_ok (s\<lparr>entries := (entries s)(a \<mapsto> e')\<rparr>)"
  by (simp add: kvs_counts_ok_def)

lemma kvs_counts_ok_delete:
  "kvs_counts_ok s \<Longrightarrow> kvs_counts_ok (s\<lparr>entries := (entries s)(a := None)\<rparr>)"
  by (simp add: kvs_counts_ok_def)

lemma kvs_update_table_entries:
  "kvs_update_table s t f = Some s' \<Longrightarrow> entries s' = entries s"
  by (auto simp: kvs_update_table_def)

lemma kvs_update_entry_counts:
  assumes "kvs_update_entry s a f = Some s'" "kvs_counts_ok s"
    "\<And>e. entries s a = Some e \<Longrightarrow> 1 \<le> ref_count (f e)"
  shows "kvs_counts_ok s'"
  using assms by (auto simp: kvs_update_entry_def kvs_counts_ok_def split: if_splits)

lemma kvs_new_entry_with_copy_counts:
  assumes "kvs_new_entry_with_copy s k v sz nt status ea va = Some (r, status', s')"
    "kvs_counts_ok s"
  shows "kvs_counts_ok s'"
  using assms
  by (auto simp: kvs_new_entry_with_copy_def kvs_counts_ok_def Let_def bind_eq_Some_conv
      split: option.splits if_splits)

lemma kvs_new_entry_with_ref_counts:
  assumes "kvs_new_entry_with_ref s k v sz nt status ea = Some (r, status', s')"
    "kvs_counts_ok s"
  shows "kvs_counts_ok s'"
  using assms
  by (auto simp: kvs_new_entry_with_ref_def kvs_counts_ok_def split: option.splits if_splits)

lemma kvs_store_link_counts:
  fixes s :: "'w::len word kvs_heap"
  assumes run: "kvs_store_link s t k status mk = Some (status', s')"
    and ok: "kvs_counts_ok s"
    and mk: "\<And>r status1 s1. mk s = Some (r, status1, s1) \<Longrightarrow> kvs_counts_ok s1"
  shows "kvs_counts_ok s'"
proof -
  from run obtain T where T: "tables s t = Some T"
    by (cases "tables s t") (simp_all add: kvs_store_link_def)
  from run T obtain index where index: "kvs_bucket_index T k = Some index"
    by (cases "kvs_bucket_index T k") (simp_all add: kvs_store_link_def)
  from run T index obtain head where head: "kvs_bucket_at T index = Some head"
    by (cases "kvs_bucket_at T index") (simp_all add: kvs_store_link_def)
  have created: "kvs_counts_ok s'"
    if m: "mk s = Some (r, status1, s1)"
      and fin: "(case r of
                   None \<Rightarrow> Some (status1, s1)
                 | Some n \<Rightarrow> do {
                     s2 \<leftarrow> link s1 n;
                     s3 \<leftarrow> kvs_update_table s2 t (\<lambda>t. t\<lparr>entry_count := entry_count t + 1\<rparr>);
                     Some (kvs_set_status status KVS_STATUS_SUCCESS, s3)
                   }) = Some (status', s')"
      and link: "\<And>n s2. link s1 n = Some s2 \<Longrightarrow> kvs_counts_ok s2"
    for r status1 s1 and link :: "'w word kvs_heap \<Rightarrow> addr \<Rightarrow> 'w word kvs_heap option"
  proof (cases r)
    case None
    with fin mk [OF m] show ?thesis by simp
  next
    case (Some n)
    with fin obtain s2 where s2: "link s1 n = Some s2"
      and s3: "kvs_update_table s2 t (\<lambda>t. t\<lparr>entry_count := entry_count t + 1\<rparr>) = Some s'"
      by (auto simp: bind_eq_Some_conv)
    from kvs_update_table_entries [OF s3] link [OF s2] show ?thesis
      by (simp add: kvs_counts_ok_def)
  qed
  show ?thesis
  proof (cases head)
    case None
    from run T index head None obtain r status1 s1 where m: "mk s = Some (r, status1, s1)"
      by (cases "mk s") (auto simp: kvs_store_link_def)
    show ?thesis
    proof (rule created [OF m, where link = "\<lambda>s1 n.
        kvs_update_table s1 t (\<lambda>t. t\<lparr>bucket := (bucket t)[index := Some n]\<rparr>)"])
      from run T index head None m
      show "(case r of
               None \<Rightarrow> Some (status1, s1)
             | Some n \<Rightarrow> do {
                 s2 \<leftarrow> kvs_update_table s1 t (\<lambda>t. t\<lparr>bucket := (bucket t)[index := Some n]\<rparr>);
                 s3 \<leftarrow> kvs_update_table s2 t (\<lambda>t. t\<lparr>entry_count := entry_count t + 1\<rparr>);
                 Some (kvs_set_status status KVS_STATUS_SUCCESS, s3)
               }) = Some (status', s')"
        by (simp add: kvs_store_link_def)
    next
      fix n s2
      assume "kvs_update_table s1 t (\<lambda>t. t\<lparr>bucket := (bucket t)[index := Some n]\<rparr>) = Some s2"
      from kvs_update_table_entries [OF this] mk [OF m] show "kvs_counts_ok s2"
        by (simp add: kvs_counts_ok_def)
    qed
  next
    case (Some first)
    from run T index head Some obtain this_entry where
      scan: "kvs_chain_scan (entries s) k first = Some this_entry"
      by (cases "kvs_chain_scan (entries s) k first") (simp_all add: kvs_store_link_def)
    from run T index head Some scan obtain e where e: "entries s this_entry = Some e"
      by (cases "entries s this_entry") (simp_all add: kvs_store_link_def)
    show ?thesis
    proof (cases "key e = k")
      case True
      with run T index head Some scan e have "s' = s" by (simp add: kvs_store_link_def)
      with ok show ?thesis by simp
    next
      case False
      from run T index head Some scan e False obtain r status1 s1 where
        m: "mk s = Some (r, status1, s1)"
        by (cases "mk s") (auto simp: kvs_store_link_def)
      show ?thesis
      proof (rule created [OF m, where link = "\<lambda>s1 n.
          kvs_update_entry s1 this_entry (\<lambda>e. e\<lparr>next' := Some n\<rparr>)"])
        from run T index head Some scan e False m
        show "(case r of
                 None \<Rightarrow> Some (status1, s1)
               | Some n \<Rightarrow> do {
                   s2 \<leftarrow> kvs_update_entry s1 this_entry (\<lambda>e. e\<lparr>next' := Some n\<rparr>);
                   s3 \<leftarrow> kvs_update_table s2 t (\<lambda>t. t\<lparr>entry_count := entry_count t + 1\<rparr>);
                   Some (kvs_set_status status KVS_STATUS_SUCCESS, s3)
                 }) = Some (status', s')"
          by (simp add: kvs_store_link_def)
      next
        fix n s2
        assume u: "kvs_update_entry s1 this_entry (\<lambda>e. e\<lparr>next' := Some n\<rparr>) = Some s2"
        show "kvs_counts_ok s2"
        proof (rule kvs_update_entry_counts [OF u mk [OF m]])
          fix e1 assume "entries s1 this_entry = Some e1"
          with mk [OF m] show "1 \<le> ref_count (e1\<lparr>next' := Some n\<rparr>)"
            by (simp add: kvs_counts_ok_def)
        qed
      qed
    qed
  qed
qed

lemma kvs_store_value_counts:
  fixes s :: "'w::len word kvs_heap"
  assumes run: "kvs_store_value s table k v sz nt status data_rep ea va = Some (status', s')"
    and ok: "kvs_counts_ok s"
  shows "kvs_counts_ok s'"
proof -
  have link: "kvs_counts_ok s'"
    if "kvs_store_link s t k status
          (\<lambda>s'. kvs_new_entry_with_copy s' k src z b None ea va) = Some (status', s')"
    for t src z b
    using that ok by (rule kvs_store_link_counts) (rule kvs_new_entry_with_copy_counts [OF _ ok])
  from run ok show ?thesis
    by (auto simp: kvs_store_value_def Let_def split: option.splits if_splits dest: link)
qed

lemma kvs_store_reference_counts:
  fixes s :: "'w::len word kvs_heap"
  assumes run: "kvs_store_reference s table k v sz nt status data_rep ea = Some (status', s')"
    and ok: "kvs_counts_ok s"
  shows "kvs_counts_ok s'"
proof -
  have link: "kvs_counts_ok s'"
    if "kvs_store_link s t k status
          (\<lambda>s'. kvs_new_entry_with_ref s' k src z b None ea) = Some (status', s')"
    for t src z b
    using that ok by (rule kvs_store_link_counts) (rule kvs_new_entry_with_ref_counts [OF _ ok])
  from run ok show ?thesis
    by (auto simp: kvs_store_reference_def Let_def split: option.splits if_splits dest: link)
qed

lemma kvs_entry_exists_entries:
  "kvs_entry_exists s table k status = Some (r, status', s') \<Longrightarrow> entries s' = entries s"
  by (auto simp: kvs_entry_exists_def bind_eq_Some_conv split: option.splits if_splits
      dest: kvs_find_entry_entries(1))

lemma kvs_size_for_key_entries:
  "kvs_size_for_key s table k status = Some (r, status', s') \<Longrightarrow> entries s' = entries s"
  by (auto simp: kvs_size_for_key_def bind_eq_Some_conv split: option.splits if_splits
      dest: kvs_find_entry_entries(1))

lemma kvs_data_for_key_is_null_terminated_entries:
  "kvs_data_for_key_is_null_terminated s table k status = Some (r, status', s') \<Longrightarrow>
   entries s' = entries s"
  by (auto simp: kvs_data_for_key_is_null_terminated_def bind_eq_Some_conv
      split: option.splits if_splits dest: kvs_find_entry_entries(1))

lemma kvs_reference_count_for_key_entries:
  "kvs_reference_count_for_key s table k status = Some (r, status', s') \<Longrightarrow>
   entries s' = entries s"
  by (auto simp: kvs_reference_count_for_key_def bind_eq_Some_conv
      split: option.splits if_splits dest: kvs_find_entry_entries(1))

lemma kvs_retrieve_copy_entries:
  "kvs_retrieve_copy s a status new_entry copy_alloc = Some (r, status', s') \<Longrightarrow>
   entries s' = entries s"
  by (auto simp: kvs_retrieve_copy_def bind_eq_Some_conv split: option.splits if_splits)

lemma kvs_value_for_key_entries:
  assumes run: "kvs_value_for_key s table k status new_entry copy_alloc = Some (r, status', s')"
  shows "entries s' = entries s"
proof (cases table)
  case None
  with run show ?thesis by (simp add: kvs_value_for_key_def)
next
  case (Some t)
  with run obtain this_entry status1 s1 where
    find: "kvs_find_entry s t k status = Some (this_entry, status1, s1)"
    by (cases "kvs_find_entry s t k status") (auto simp: kvs_value_for_key_def)
  note same = kvs_find_entry_entries(1) [OF find]
  show ?thesis
  proof (cases this_entry)
    case None
    with run Some find same show ?thesis by (simp add: kvs_value_for_key_def)
  next
    case a: (Some a)
    with run Some find obtain e where e: "entries s1 a = Some e"
      by (cases "entries s1 a") (simp_all add: kvs_value_for_key_def)
    show ?thesis
    proof (cases "marked_for_removal e \<or> size' e = 0")
      case True
      with run Some find a e same show ?thesis
        by (auto simp: kvs_value_for_key_def split: if_splits)
    next
      case False
      with run Some find a e
      have "kvs_retrieve_copy s1 a status1 new_entry copy_alloc = Some (r, status', s')"
        by (simp add: kvs_value_for_key_def)
      from kvs_retrieve_copy_entries [OF this] same show ?thesis by simp
    qed
  qed
qed

lemma kvs_no_wrap_increment:
  assumes "kvs_no_wrap s k" "entries s a = Some e" "key e = k"
  shows "1 \<le> ref_count e + 1"
proof -
  from assms have "ref_count e + 1 \<noteq> 0" by (auto simp: kvs_no_wrap_def)
  then show ?thesis by (simp add: word_le_nat_alt unat_eq_zero Suc_le_eq unat_gt_0)
qed

lemma kvs_reference_for_key_counts:
  fixes s :: "'w::len word kvs_heap"
  assumes run: "kvs_reference_for_key s table k status = Some (r, status', s')"
    and ok: "kvs_counts_ok s" and nw: "kvs_no_wrap s k"
  shows "kvs_counts_ok s'"
proof (cases table)
  case None
  with run ok show ?thesis by (simp add: kvs_reference_for_key_def)
next
  case (Some t)
  with run obtain this_entry status1 s1 where
    find: "kvs_find_entry s t k status = Some (this_entry, status1, s1)"
    by (cases "kvs_find_entry s t k status") (auto simp: kvs_reference_for_key_def)
  note same = kvs_find_entry_entries(1) [OF find]
  from ok same have ok1: "kvs_counts_ok s1" by (simp add: kvs_counts_ok_def)
  show ?thesis
  proof (cases this_entry)
    case None
    with run Some find ok1 show ?thesis by (simp add: kvs_reference_for_key_def)
  next
    case a: (Some a)
    from kvs_find_entry_entries(3) [OF find a] obtain e where
      e: "entries s a = Some e" "key e = k" by blast
    show ?thesis
    proof (cases "marked_for_removal e")
      case True
      with run Some find a e same ok1 show ?thesis
        by (simp add: kvs_reference_for_key_def)
    next
      case False
      with run Some find a e same
      have "kvs_update_entry s1 a (\<lambda>e. e\<lparr>ref_count := ref_count e + 1\<rparr>) = Some s'"
        by (auto simp: kvs_reference_for_key_def bind_eq_Some_conv)
      then show ?thesis
      proof (rule kvs_update_entry_counts [OF _ ok1])
        fix e1 assume "entries s1 a = Some e1"
        with same e have "e1 = e" by simp
        with kvs_no_wrap_increment [OF nw e]
        show "1 \<le> ref_count (e1\<lparr>ref_count := ref_count e1 + 1\<rparr>)" by simp
      qed
    qed
  qed
qed

lemma kvs_get_entry_counts:
  fixes s :: "'w::len word kvs_heap"
  assumes run: "kvs_get_entry s table copy k status new_entry copy_alloc
                  = Some (r, so, no, status', s')"
    and ok: "kvs_counts_ok s" and nw: "copy \<or> kvs_no_wrap s k"
  shows "kvs_counts_ok s'"
proof (cases table)
  case None
  with run ok show ?thesis by (simp add: kvs_get_entry_def)
next
  case (Some t)
  with run obtain this_entry status1 s1 where
    find: "kvs_find_entry s t k status = Some (this_entry, status1, s1)"
    by (cases "kvs_find_entry s t k status") (auto simp: kvs_get_entry_def)
  note same = kvs_find_entry_entries(1) [OF find]
  from ok same have ok1: "kvs_counts_ok s1" by (simp add: kvs_counts_ok_def)
  show ?thesis
  proof (cases this_entry)
    case None
    with run Some find ok1 show ?thesis by (simp add: kvs_get_entry_def)
  next
    case a: (Some a)
    from kvs_find_entry_entries(3) [OF find a] obtain e where
      e: "entries s a = Some e" "key e = k" by blast
    show ?thesis
    proof (cases "marked_for_removal e \<or> (copy \<and> size' e = 0)")
      case True
      with run Some find a e same ok1 show ?thesis
        by (auto simp: kvs_get_entry_def split: if_splits)
    next
      case False
      show ?thesis
      proof (cases copy)
        case True
        with False run Some find a e same obtain p st2 where
          "kvs_retrieve_copy s1 a status1 new_entry copy_alloc = Some (p, st2, s')"
          by (auto simp: kvs_get_entry_def bind_eq_Some_conv)
        from kvs_retrieve_copy_entries [OF this] ok1 show ?thesis
          by (simp add: kvs_counts_ok_def)
      next
        case nc: False
        with False run Some find a e same
        have "kvs_update_entry s1 a (\<lambda>e. e\<lparr>ref_count := ref_count e + 1\<rparr>) = Some s'"
          by (auto simp: kvs_get_entry_def bind_eq_Some_conv)
        then show ?thesis
        proof (rule kvs_update_entry_counts [OF _ ok1])
          fix e1 assume "entries s1 a = Some e1"
          with same e have "e1 = e" by simp
          moreover from nw nc have "kvs_no_wrap s k" by simp
          note kvs_no_wrap_increment [OF this e]
          ultimately show "1 \<le> ref_count (e1\<lparr>ref_count := ref_count e1 + 1\<rparr>)" by simp
        qed
      qed
    qed
  qed
qed

lemma kvs_dispose_entry_counts:
  assumes "kvs_dispose_entry s entry status = Some (status', s')" "kvs_counts_ok s"
  shows "kvs_counts_ok s'"
  using assms
  by (auto simp: kvs_dispose_entry_def kvs_counts_ok_def bind_eq_Some_conv
      split: option.splits if_splits)

lemma kvs_word_pred_floor: "(1 :: 'w::len word) < x \<Longrightarrow> 1 \<le> x - 1"
proof -
  assume lt: "1 < x"
  then have "1 \<le> x" by simp
  then have "unat (x - 1) = unat x - unat (1 :: 'w word)" by (rule unat_sub)
  moreover from lt have "unat (1 :: 'w word) < unat x" by (simp only: word_less_nat_alt)
  ultimately show ?thesis by (simp add: word_le_nat_alt)
qed

lemma kvs_remove_entry_counts:
  fixes s :: "'w::len word kvs_heap"
  assumes run: "kvs_remove_entry s table k status = Some (status', s')"
    and ok: "kvs_counts_ok s"
  shows "kvs_counts_ok s'"
proof (cases "table = None \<or> k = 0")
  case True
  with run ok show ?thesis by (auto simp: kvs_remove_entry_def split: option.splits)
next
  case False
  then obtain t where t: "table = Some t" and k: "k \<noteq> 0" by auto
  from run t k obtain T where T: "tables s t = Some T"
    by (cases "tables s t") (simp_all add: kvs_remove_entry_def)
  from run t k T obtain index where index: "kvs_bucket_index T k = Some index"
    by (cases "kvs_bucket_index T k") (simp_all add: kvs_remove_entry_def)
  from run t k T index obtain head where head: "kvs_bucket_at T index = Some head"
    by (cases "kvs_bucket_at T index") (simp_all add: kvs_remove_entry_def)
  show ?thesis
  proof (cases head)
    case None
    with run t k T index head ok show ?thesis by (simp add: kvs_remove_entry_def)
  next
    case (Some first)
    from run t k T index head Some obtain prev_entry this_entry where
      scan: "kvs_remove_scan (entries s) k first first = Some (prev_entry, this_entry)"
      by (cases "kvs_remove_scan (entries s) k first first") (auto simp: kvs_remove_entry_def)
    from run t k T index head Some scan obtain e where e: "entries s this_entry = Some e"
      by (cases "entries s this_entry") (simp_all add: kvs_remove_entry_def)
    show ?thesis
    proof (cases "key e = k")
      case False
      with run t k T index head Some scan e ok show ?thesis
        by (simp add: kvs_remove_entry_def)
    next
      case True
      show ?thesis
      proof (cases "ref_count e \<le> 1")
        case False
        with True run t k T index head Some scan e
        have "kvs_update_entry s this_entry (\<lambda>e. e\<lparr>marked_for_removal := True\<rparr>) = Some s'"
          by (auto simp: kvs_remove_entry_def bind_eq_Some_conv)
        then show ?thesis
        proof (rule kvs_update_entry_counts [OF _ ok])
          fix e1 assume "entries s this_entry = Some e1"
          with ok show "1 \<le> ref_count (e1\<lparr>marked_for_removal := True\<rparr>)"
            by (simp add: kvs_counts_ok_def)
        qed
      next
        case le: True
        with True run t k T index head Some scan e obtain s1 s2 s3 status1 where
          s1: "(if last_retrieved_entry T = Some this_entry
                then kvs_update_table s t (\<lambda>t. t\<lparr>last_retrieved_entry := None\<rparr>)
                else Some s) = Some s1"
          and s2: "(if Some first = Some this_entry
                then kvs_update_table s1 t (\<lambda>t. t\<lparr>bucket := (bucket t)[index := next' e]\<rparr>)
                else kvs_update_entry s1 prev_entry (\<lambda>p. p\<lparr>next' := next' e\<rparr>)) = Some s2"
          and s3: "kvs_dispose_entry s2 (Some this_entry) status = Some (status1, s3)"
          and s4: "kvs_update_table s3 t (\<lambda>t. t\<lparr>entry_count := entry_count t - 1\<rparr>) = Some s'"
          by (auto simp: kvs_remove_entry_def bind_eq_Some_conv)
        from s1 ok have ok1: "kvs_counts_ok s1"
          by (auto simp: kvs_counts_ok_def split: if_splits dest: kvs_update_table_entries)
        have ok2: "kvs_counts_ok s2"
        proof (cases "first = this_entry")
          case True
          with s2 ok1 show ?thesis
            by (auto simp: kvs_counts_ok_def dest: kvs_update_table_entries)
        next
          case False
          with s2 have u: "kvs_update_entry s1 prev_entry (\<lambda>p. p\<lparr>next' := next' e\<rparr>) = Some s2"
            by simp
          show ?thesis
          proof (rule kvs_update_entry_counts [OF u ok1])
            fix e1 assume "entries s1 prev_entry = Some e1"
            with ok1 show "1 \<le> ref_count (e1\<lparr>next' := next' e\<rparr>)"
              by (simp add: kvs_counts_ok_def)
          qed
        qed
        from kvs_dispose_entry_counts [OF s3 ok2] kvs_update_table_entries [OF s4]
        show ?thesis by (simp add: kvs_counts_ok_def)
      qed
    qed
  qed
qed

lemma kvs_release_entry_counts:
  fixes s :: "'w::len word kvs_heap"
  assumes run: "kvs_release_entry s table k status = Some (status', s')"
    and ok: "kvs_counts_ok s"
  shows "kvs_counts_ok s'"
proof (cases table)
  case None
  with run ok show ?thesis by (simp add: kvs_release_entry_def)
next
  case (Some t)
  with run obtain this_entry status1 s1 where
    find: "kvs_find_entry s t k status = Some (this_entry, status1, s1)"
    by (cases "kvs_find_entry s t k status") (auto simp: kvs_release_entry_def)
  note same = kvs_find_entry_entries(1) [OF find]
  from ok same have ok1: "kvs_counts_ok s1" by (simp add: kvs_counts_ok_def)
  show ?thesis
  proof (cases this_entry)
    case None
    with run Some find ok1 show ?thesis by (simp add: kvs_release_entry_def)
  next
    case a: (Some a)
    with run Some find obtain e where e: "entries s1 a = Some e"
      by (cases "entries s1 a") (simp_all add: kvs_release_entry_def)
    show ?thesis
    proof (cases "1 < ref_count e")
      case False
      with run Some find a e ok1 show ?thesis by (simp add: kvs_release_entry_def)
    next
      case True
      define s2 where "s2 = s1\<lparr>entries := (entries s1)(a \<mapsto> e\<lparr>ref_count := ref_count e - 1\<rparr>)\<rparr>"
      from True have "1 \<le> ref_count e - 1" by (rule kvs_word_pred_floor)
      with ok1 have ok2: "kvs_counts_ok s2"
        unfolding s2_def by (intro kvs_counts_ok_update) simp_all
      from True run Some find a e
      have "s' = s2 \<or> kvs_remove_entry s2 (Some t) k status1 = Some (status', s')"
        by (auto simp: kvs_release_entry_def kvs_update_entry_def s2_def split: if_splits)
      with ok2 kvs_remove_entry_counts show ?thesis by blast
    qed
  qed
qed

lemma kvs_dispose_chain_counts:
  assumes "kvs_dispose_chain s p = Some s'" "kvs_counts_ok s"
  shows "kvs_counts_ok s'"
proof -
  have "kvs_counts_ok s \<longrightarrow> kvs_counts_ok s'"
  proof (rule kvs_dispose_chain.raw_induct
      [where P = "\<lambda>s p s'. kvs_counts_ok s \<longrightarrow> kvs_counts_ok s'", OF _ assms(1)])
    fix f and s sa :: "'a word kvs_heap" and this_entry
    assume IH: "\<And>s p y. f s p = Some y \<Longrightarrow> kvs_counts_ok s \<longrightarrow> kvs_counts_ok y"
      and step: "(case this_entry of None \<Rightarrow> Some s
        | Some prev_entry \<Rightarrow>
            case entries s prev_entry of None \<Rightarrow> None
            | Some e \<Rightarrow>
                case kvs_dispose_entry s (Some prev_entry) None of None \<Rightarrow> None
                | Some (status1, s1) \<Rightarrow> f s1 (next' e)) = Some sa"
    show "kvs_counts_ok s \<longrightarrow> kvs_counts_ok sa"
    proof
      assume ok: "kvs_counts_ok s"
      show "kvs_counts_ok sa"
      proof (cases this_entry)
        case None
        with step ok show ?thesis by simp
      next
        case (Some prev_entry)
        with step obtain e where e: "entries s prev_entry = Some e"
          by (cases "entries s prev_entry") simp_all
        with step Some obtain r where
          r: "kvs_dispose_entry s (Some prev_entry) None = Some r"
          by (cases "kvs_dispose_entry s (Some prev_entry) None") simp_all
        obtain status1 s1 where r': "r = (status1, s1)" by (cases r)
        from step Some e r r' have "f s1 (next' e) = Some sa" by simp
        moreover from kvs_dispose_entry_counts r r' ok have "kvs_counts_ok s1" by blast
        ultimately show ?thesis using IH by blast
      qed
    qed
  qed
  with assms(2) show ?thesis by simp
qed

lemma kvs_dispose_buckets_counts:
  "kvs_dispose_buckets s t index n = Some s' \<Longrightarrow> kvs_counts_ok s \<Longrightarrow> kvs_counts_ok s'"
proof (induction n arbitrary: s index)
  case 0
  then show ?case by simp
next
  case (Suc n)
  from Suc.prems(1) obtain s1 s2 p where
    s1: "kvs_dispose_chain s p = Some s1"
    and s2: "kvs_update_table s1 t (\<lambda>t. t\<lparr>bucket := (bucket t)[index := None]\<rparr>) = Some s2"
    and rest: "kvs_dispose_buckets s2 t (Suc index) n = Some s'"
    by (auto simp: bind_eq_Some_conv)
  from kvs_dispose_chain_counts [OF s1 Suc.prems(2)] kvs_update_table_entries [OF s2]
  have "kvs_counts_ok s2" by (simp add: kvs_counts_ok_def)
  with Suc.IH [OF rest] show ?case .
qed

lemma kvs_dispose_table_counts:
  assumes "kvs_dispose_table s table status = Some (status', s')" "kvs_counts_ok s"
  shows "kvs_counts_ok s'"
proof (cases table)
  case None
  with assms show ?thesis by (simp add: kvs_dispose_table_def)
next
  case (Some t)
  with assms(1) obtain T where T: "tables s t = Some T"
    by (cases "tables s t") (simp_all add: kvs_dispose_table_def)
  define r where "r = (if entry_count T \<noteq> 0
      then kvs_dispose_buckets s t 0 (unat (entry_count T)) else Some s)"
  from assms(1) Some T obtain s1 where s1: "r = Some s1"
    by (cases r) (simp_all add: kvs_dispose_table_def r_def)
  from assms(1) Some T s1 have s': "s' = s1\<lparr>tables := (tables s1)(t := None)\<rparr>"
    by (simp add: kvs_dispose_table_def r_def)
  from s1 assms(2) have "kvs_counts_ok s1"
    unfolding r_def by (auto split: if_splits dest: kvs_dispose_buckets_counts)
  with s' show ?thesis by (simp add: kvs_counts_ok_def)
qed

lemma kvs_init_buckets_short:
  "index \<le> length b \<Longrightarrow> length b < index + n \<Longrightarrow> kvs_init_buckets b index n = None"
  by (induction n arbitrary: b index) simp_all

lemma kvs_new_table_undefined: "kvs_new_table s sz status (Some t) = None"
proof -
  define c where "c = (if sz = 0 then KVS_DEFAULT_TABLE_SIZE else sz)"
  have "c \<noteq> 0" by (simp add: c_def KVS_DEFAULT_TABLE_SIZE_def)
  then have "unat (c - 1) < unat c"
    by (simp add: unat_minus_one unat_gt_0)
  then have "kvs_init_buckets (replicate (unat (c - 1)) None) 0 (unat c) = None"
    by (intro kvs_init_buckets_short) simp_all
  then show ?thesis by (simp add: kvs_new_table_def c_def)
qed

lemma kvs_new_table_entries:
  "kvs_new_table s sz status table_alloc = Some (r, status', s') \<Longrightarrow> entries s' = entries s"
proof (cases table_alloc)
  case None
  assume "kvs_new_table s sz status table_alloc = Some (r, status', s')"
  with None show ?thesis by (simp add: kvs_new_table_def)
next
  case (Some t)
  assume "kvs_new_table s sz status table_alloc = Some (r, status', s')"
  with Some kvs_new_table_undefined [of s sz status t] show ?thesis by simp
qed

lemma kvs_reachable_counts: "kvs_reachable s \<Longrightarrow> kvs_counts_ok s"
proof (induction rule: kvs_reachable.induct)
  case (start s)
  then show ?case by (simp add: kvs_counts_ok_def)
next
  case (new_table s sz status table_alloc r status' s')
  from kvs_new_table_entries [OF new_table(2)] new_table(3) show ?case
    by (simp add: kvs_counts_ok_def)
next
  case (store_value s table k v sz nt status data_rep entry_alloc value_alloc status' s')
  from kvs_store_value_counts [OF store_value(2,3)] show ?case .
next
  case (store_reference s table k v sz nt status data_rep entry_alloc status' s')
  from kvs_store_reference_counts [OF store_reference(2,3)] show ?case .
next
  case (entry_exists s table k status b status' s')
  from kvs_entry_exists_entries [OF entry_exists(2)] entry_exists(3) show ?case
    by (simp add: kvs_counts_ok_def)
next
  case (get_entry s table copy k status new_entry copy_alloc p size_out nt_out status' s')
  from kvs_get_entry_counts [OF get_entry(2) get_entry(4) get_entry(3)] show ?case .
next
  case (value_for_key s table k status new_entry copy_alloc p status' s')
  from kvs_value_for_key_entries [OF value_for_key(2)] value_for_key(3) show ?case
    by (simp add: kvs_counts_ok_def)
next
  case (reference_for_key s table k status p status' s')
  from kvs_reference_for_key_counts [OF reference_for_key(2) reference_for_key(4)
      reference_for_key(3)] show ?case .
next
  case (size_for_key s table k status n status' s')
  from kvs_size_for_key_entries [OF size_for_key(2)] size_for_key(3) show ?case
    by (simp add: kvs_counts_ok_def)
next
  case (data_for_key_is_null_terminated s table k status b status' s')
  from kvs_data_for_key_is_null_terminated_entries [OF data_for_key_is_null_terminated(2)]
    data_for_key_is_null_terminated(3) show ?case
    by (simp add: kvs_counts_ok_def)
next
  case (reference_count_for_key s table k status n status' s')
  from kvs_reference_count_for_key_entries [OF reference_count_for_key(2)]
    reference_count_for_key(3) show ?case
    by (simp add: kvs_counts_ok_def)
next
  case (release_entry s table k status status' s')
  from kvs_release_entry_counts [OF release_entry(2,3)] show ?case .
next
  case (remove_entry s table k status status' s')
  from kvs_remove_entry_counts [OF remove_entry(2,3)] show ?case .
next
  case (dispose_table s table status status' s')
  from kvs_dispose_table_counts [OF dispose_table(2,3)] show ?case .
qed

lemma kvs_example_stored_inv: "kvs_inv kvs_example_stored 100 kvs_example_stored_chains"
  by (simp add: kvs_example_stored_def kvs_example_stored_chains_def kvs_inv_def
      kvs_bucket_ok_def kvs_key_of_def All_less_Suc)

lemma kvs_example_stored_bucket:
  "kvs_example_stored_chains ! (unat (5 :: kvs_key_t) mod length kvs_example_stored_chains)
     = [200]"
proof -
  have len: "length kvs_example_stored_chains = 4" by (simp add: kvs_example_stored_chains_def)
  show ?thesis unfolding len by (simp add: kvs_example_stored_chains_def)
qed

lemma kvs_example_stored_reachable: "kvs_reachable kvs_example_stored"
proof -
  have "kvs_reachable kvs_example_fresh"
    by (rule kvs_reachable.start) (simp add: kvs_example_fresh_def)
  from kvs_reachable.store_value [OF this kvs_example_stored_run] show ?thesis .
qed

lemma kvs_referenced_entry:
  "entries s a = Some e \<Longrightarrow>
   kvs_referenced s t a
     = (kvs_cached s t (Some a))\<lparr>entries := (entries s)(a \<mapsto> e\<lparr>ref_count := ref_count e + 1\<rparr>)\<rparr>"
  by (simp add: kvs_referenced_def)

lemma kvs_reference_repeat_live:
  assumes inv: "kvs_inv s t cs"
    and a: "a \<in> set (cs ! (unat k mod length cs))"
    and e: "entries s a = Some e" "key e = k" "\<not> marked_for_removal e"
  shows "kvs_reference_repeat (Suc n) s (Some t) k
           = Some ((kvs_cached s t (Some a))\<lparr>entries :=
                (entries s)(a \<mapsto> e\<lparr>ref_count := ref_count e + of_nat (Suc n)\<rparr>)\<rparr>)"
  using inv e
proof (induction n arbitrary: s e)
  case 0
  have r: "kvs_reference_repeat (Suc 0) s (Some t) k = Some (kvs_referenced s t a)"
    by (simp add: kvs_reference_for_key_live [OF 0(1) a 0(2,3,4)])
  have h: "ref_count e + of_nat (Suc 0) = ref_count e + 1" by simp
  show ?case by (simp only: r kvs_referenced_entry [OF 0(2)] h)
next
  case (Suc n)
  define s1 where "s1 = kvs_referenced s t a"
  define e1 where "e1 = e\<lparr>ref_count := ref_count e + 1\<rparr>"
  have step: "kvs_reference_for_key s (Some t) k None
                = Some (value' e, Some KVS_STATUS_SUCCESS, s1)"
    unfolding s1_def by (rule kvs_reference_for_key_live [OF Suc.prems(1) a Suc.prems(2,3,4)])
  have inv1: "kvs_inv s1 t cs"
    unfolding s1_def by (rule kvs_inv_referenced [OF Suc.prems(1) kvs_inv_entry [OF Suc.prems(1) a]])
  have s1: "s1 = (kvs_cached s t (Some a))\<lparr>entries := (entries s)(a \<mapsto> e1)\<rparr>"
    unfolding s1_def e1_def by (rule kvs_referenced_entry [OF Suc.prems(2)])
  have e1: "entries s1 a = Some e1" "key e1 = k" "\<not> marked_for_removal e1"
    using Suc.prems(3,4) by (simp_all add: s1 e1_def)
  have "kvs_reference_repeat (Suc (Suc n)) s (Some t) k
          = kvs_reference_repeat (Suc n) s1 (Some t) k"
    using step by simp
  also have "\<dots> = Some ((kvs_cached s1 t (Some a))\<lparr>entries :=
                (entries s1)(a \<mapsto> e1\<lparr>ref_count := ref_count e1 + of_nat (Suc n)\<rparr>)\<rparr>)"
    by (rule Suc.IH [OF inv1 e1])
  also have "(kvs_cached s1 t (Some a))\<lparr>entries :=
                (entries s1)(a \<mapsto> e1\<lparr>ref_count := ref_count e1 + of_nat (Suc n)\<rparr>)\<rparr>
             = (kvs_cached s t (Some a))\<lparr>entries :=
                (entries s)(a \<mapsto> e\<lparr>ref_count := ref_count e + of_nat (Suc (Suc n))\<rparr>)\<rparr>"
    by (simp add: s1 e1_def kvs_cached_def fun_eq_iff option.map_comp comp_def add.assoc)
  finally show ?case .
qed

lemma kvs_reference_repeat_wrap:
  "kvs_reference_repeat 65535 kvs_example_stored (Some 100) 5
     = Some (kvs_example_stored
         \<lparr>tables := [100 \<mapsto> \<lparr>last_retrieved_entry = Some 200, entry_count = 1,
                              bucket_count = 4, bucket = [None, Some 200, None, None]\<rparr>],
          entries := [200 \<mapsto> \<lparr>key = 5, value' = Some 5000, size' = 2, next' = None,
                               ref_count = 0, null_terminated = False,
                               marked_for_removal = False\<rparr>]\<rparr>)"
proof -
  have a: "200 \<in> set (kvs_example_stored_chains
             ! (unat (5 :: kvs_key_t) mod length kvs_example_stored_chains))"
    unfolding kvs_example_stored_bucket by simp
  have e: "entries kvs_example_stored 200
             = Some \<lparr>key = 5, value' = Some 5000, size' = 2, next' = None,
                     ref_count = 1, null_terminated = False, marked_for_removal = False\<rparr>"
    by (simp add: kvs_example_stored_def)
  have n: "(65535 :: nat) = Suc 65534" by simp
  have w: "(65536 :: 16 word) = 0" by transfer simp
  from kvs_reference_repeat_live [OF kvs_example_stored_inv a e, of 65534]
  show ?thesis
    unfolding n by (simp add: w kvs_cached_def kvs_example_stored_def)
qed

lemma kvs_referenced_cached [simp]:
  "kvs_referenced (kvs_cached s t c) t a = kvs_referenced s t a"
  by (simp add: kvs_referenced_def)

lemma kvs_reference_for_key_hit:
  assumes inv: "kvs_inv s t cs"
    and a: "a \<in> set (cs ! (unat k mod length cs))"
    and e: "entries s a = Some e" "key e = k"
  shows "kvs_reference_for_key s (Some t) k status
           = Some (if marked_for_removal e
                   then (None, Some KVS_STATUS_ENTRY_PENDING_REMOVAL, kvs_cached s t (Some a))
                   else (value' e, Some KVS_STATUS_SUCCESS, kvs_referenced s t a))"
proof -
  from e have ka: "kvs_key_of (entries s) a = k" by (simp add: kvs_key_of_def)
  note find = kvs_find_entry_hit [OF inv a ka, of status]
  show ?thesis
    by (simp add: kvs_reference_for_key_def find e kvs_update_entry_def kvs_set_status_def
        kvs_referenced_def)
qed


lemma kvs_word_succ:
  fixes x :: "'w::len word"
  shows "unat (x + 1) = (unat x + 1) mod 2 ^ LENGTH('w)"
    and "x + 1 \<noteq> 0 \<Longrightarrow> unat (x + 1) = unat x + 1"
    and "x + 1 = 0 \<Longrightarrow> unat x = 2 ^ LENGTH('w) - 1"
proof -
  show m: "unat (x + 1) = (unat x + 1) mod 2 ^ LENGTH('w)"
    by (simp add: unat_word_ariths)
  have lt: "unat x < 2 ^ LENGTH('w)" by (rule unsigned_less)
  from lt have le: "unat x + 1 \<le> 2 ^ LENGTH('w)" by linarith
  show "unat (x + 1) = unat x + 1" if "x + 1 \<noteq> 0"
  proof -
    from that have "unat (x + 1) \<noteq> 0" by (simp add: unat_eq_0)
    with m have "(unat x + 1) mod 2 ^ LENGTH('w) \<noteq> 0" by simp
    then have "unat x + 1 \<noteq> 2 ^ LENGTH('w)" by auto
    with le have "unat x + 1 < 2 ^ LENGTH('w)" by linarith
    with m show ?thesis by simp
  qed
  show "unat x = 2 ^ LENGTH('w) - 1" if "x + 1 = 0"
  proof -
    from that m have z: "(unat x + 1) mod 2 ^ LENGTH('w) = 0" by simp
    have "\<not> unat x + 1 < 2 ^ LENGTH('w)"
    proof
      assume "unat x + 1 < 2 ^ LENGTH('w)"
      then have "(unat x + 1) mod 2 ^ LENGTH('w) = unat x + 1" by (rule mod_less)
      with z show False by simp
    qed
    with le have "unat x + 1 = 2 ^ LENGTH('w)" by linarith
    then show ?thesis by simp
  qed
qed

section \<open>The claims\<close>

text \<open>C7, as amended.  A store for a key that already has an entry in its bucket's chain
  changes nothing, and is rejected as a duplicate once its arguments have passed the checks
  that come first.  For every well-formed table and every entry \<open>a\<close> of the chain of key
  \<open>k\<close>'s bucket that carries \<open>k\<close> (no assumption is made on its \<open>marked_for_removal\<close> flag:
  the entry may be live or pending removal), \<open>kvs_store_value\<close> and \<open>kvs_store_reference\<close>
  return the heap they were given, whatever their other arguments: no entry is created, the
  existing entry keeps its value and meta data, \<open>entry_count\<close> stays.  The status is
  \<open>KVS_STATUS_INVALID_DATA\<close> for a \<open>NULL\<close> payload, \<open>KVS_STATUS_INVALID_SIZE\<close> for size 0
  without \<open>null_terminated\<close> or with a derived size of 0, and
  \<open>KVS_STATUS_KEY_NOT_UNIQUE\<close> in every other case.\<close>

theorem kvs_store_duplicate_key:
  assumes "kvs_inv s t cs"
    and "a \<in> set (cs ! (unat k mod length cs))" and "kvs_key_of (entries s) a = k"
  shows "kvs_store_value s (Some t) k v sz nt status data_rep entry_alloc value_alloc
           = Some (Some (if v = None then KVS_STATUS_INVALID_DATA
                         else if sz = 0 \<and>
                                 (\<not> nt \<or> kvs_calc_null_terminated_data_size data_rep = 0)
                         then KVS_STATUS_INVALID_SIZE
                         else KVS_STATUS_KEY_NOT_UNIQUE), s) \<and>
         kvs_store_reference s (Some t) k v sz nt status data_rep entry_alloc
           = Some (Some (if v = None then KVS_STATUS_INVALID_DATA
                         else if sz = 0 \<and>
                                 (\<not> nt \<or> kvs_calc_null_terminated_data_size data_rep = 0)
                         then KVS_STATUS_INVALID_SIZE
                         else KVS_STATUS_KEY_NOT_UNIQUE), s)"
proof -
  have km: "a \<in> set (concat cs)"
  proof -
    from kvs_inv_table [OF assms(1)] obtain T where T: "tables s t = Some T" by blast
    from kvs_concat_nthI [OF kvs_inv_index(2) [OF assms(1) T] assms(2)] show ?thesis .
  qed
  from kvs_inv_member(2) [OF assms(1) km] assms(3) have k: "k \<noteq> 0" by simp
  note dup = kvs_store_link_duplicate [OF assms(1-3)]
  show ?thesis
  proof (cases v)
    case None
    with k show ?thesis
      by (simp add: kvs_store_value_def kvs_store_reference_def kvs_set_status_def)
  next
    case (Some src)
    with k show ?thesis
      by (auto simp: kvs_store_value_def kvs_store_reference_def dup Let_def
          kvs_set_status_def)
  qed
qed

theorem kvs_store_duplicate_key_witness:
  "kvs_inv kvs_example 100 kvs_example_chains \<and>
   201 \<in> set (kvs_example_chains ! (unat (4 :: kvs_key_t) mod length kvs_example_chains)) \<and>
   kvs_key_of (entries kvs_example) 201 = 4 \<and>
   kvs_store_value kvs_example (Some 100) 4 (Some 7000) 3 False None (\<lambda>_. 0)
       (Some 300) (Some 7100)
     = Some (Some KVS_STATUS_KEY_NOT_UNIQUE, kvs_example) \<and>
   kvs_store_reference kvs_example (Some 100) 4 (Some 7000) 3 False None (\<lambda>_. 0) (Some 300)
     = Some (Some KVS_STATUS_KEY_NOT_UNIQUE, kvs_example)"
proof -
  have mem: "201 \<in> set (kvs_example_chains !
      (unat (4 :: kvs_key_t) mod length kvs_example_chains))"
    unfolding kvs_example_bucket by simp
  from kvs_store_duplicate_key [OF kvs_example_inv mem kvs_example_keys(2),
      where v = "Some 7000" and sz = 3 and nt = False and status = None
        and data_rep = "\<lambda>_. 0" and entry_alloc = "Some 300" and value_alloc = "Some 7100"]
    kvs_example_inv mem kvs_example_keys(2)
  show ?thesis by simp
qed

text \<open>C7 as stated fails in its status: the payload and size checks of both store functions
  come before the look at the chain.  In the example table key 2 has an entry, the head of
  bucket 0.  A store for key 2 with a \<open>NULL\<close> payload is answered with
  \<open>KVS_STATUS_INVALID_DATA\<close>, one with size 0 and \<open>null_terminated = false\<close> with
  \<open>KVS_STATUS_INVALID_SIZE\<close>, and so is one with size 0 and \<open>null_terminated = true\<close> for the
  string \<open>hi\<close> at address 4096, whose derived size is 0; none of them is answered with
  \<open>KVS_STATUS_KEY_NOT_UNIQUE\<close>.\<close>

theorem kvs_store_duplicate_key_counterexample:
  "map_option bucket (tables kvs_example 100) = Some [Some 200, Some 202] \<and>
   unat (2 :: kvs_key_t) mod 2 = 0 \<and>
   map_option key (entries kvs_example 200) = Some 2 \<and>
   kvs_store_value kvs_example (Some 100) 2 None 4 False None (kvs_pointer_rep 0)
       (Some 300) (Some 6000)
     = Some (Some KVS_STATUS_INVALID_DATA, kvs_example) \<and>
   kvs_store_reference kvs_example (Some 100) 2 None 4 False None (kvs_pointer_rep 0)
       (Some 300)
     = Some (Some KVS_STATUS_INVALID_DATA, kvs_example) \<and>
   kvs_store_value kvs_example (Some 100) 2 (Some 4096) 0 False None (kvs_pointer_rep 4096)
       (Some 300) (Some 6000)
     = Some (Some KVS_STATUS_INVALID_SIZE, kvs_example) \<and>
   kvs_store_reference kvs_example (Some 100) 2 (Some 4096) 0 False None
       (kvs_pointer_rep 4096) (Some 300)
     = Some (Some KVS_STATUS_INVALID_SIZE, kvs_example) \<and>
   kvs_store_value kvs_example (Some 100) 2 (Some 4096) 0 True None (kvs_pointer_rep 4096)
       (Some 300) (Some 6000)
     = Some (Some KVS_STATUS_INVALID_SIZE, kvs_example) \<and>
   kvs_store_reference kvs_example (Some 100) 2 (Some 4096) 0 True None
       (kvs_pointer_rep 4096) (Some 300)
     = Some (Some KVS_STATUS_INVALID_SIZE, kvs_example)"
  by (simp add: kvs_store_value_def kvs_store_reference_def kvs_pointer_rep_4096
      kvs_set_status_def kvs_example_def)

text \<open>C10.  Key 0 at the lookup interface.  On a well-formed table the lookup and release
  operations called with key 0 find nothing: they report \<open>KVS_STATUS_ENTRY_NOT_FOUND\<close>,
  return \<open>false\<close>, \<open>NULL\<close> or 0, and leave the heap as it was.  Only
  \<open>kvs_store_value\<close>, \<open>kvs_store_reference\<close> and \<open>kvs_remove_entry\<close> reject the key with
  \<open>KVS_STATUS_INVALID_KEY\<close>.\<close>

theorem kvs_zero_key_lookup:
  assumes "kvs_inv s t cs"
  shows "kvs_entry_exists s (Some t) 0 status
           = Some (False, Some KVS_STATUS_ENTRY_NOT_FOUND, s) \<and>
         kvs_get_entry s (Some t) copy 0 status new_entry copy_alloc
           = Some (None, None, None, Some KVS_STATUS_ENTRY_NOT_FOUND, s) \<and>
         kvs_value_for_key s (Some t) 0 status new_entry copy_alloc
           = Some (None, Some KVS_STATUS_ENTRY_NOT_FOUND, s) \<and>
         kvs_reference_for_key s (Some t) 0 status
           = Some (None, Some KVS_STATUS_ENTRY_NOT_FOUND, s) \<and>
         kvs_size_for_key s (Some t) 0 status
           = Some (0, Some KVS_STATUS_ENTRY_NOT_FOUND, s) \<and>
         kvs_reference_count_for_key s (Some t) 0 status
           = Some (0, Some KVS_STATUS_ENTRY_NOT_FOUND, s) \<and>
         kvs_release_entry s (Some t) 0 status
           = Some (Some KVS_STATUS_ENTRY_NOT_FOUND, s) \<and>
         kvs_store_value s (Some t) 0 v sz nt status data_rep entry_alloc value_alloc
           = Some (Some KVS_STATUS_INVALID_KEY, s) \<and>
         kvs_store_reference s (Some t) 0 v sz nt status data_rep entry_alloc
           = Some (Some KVS_STATUS_INVALID_KEY, s) \<and>
         kvs_remove_entry s (Some t) 0 status
           = Some (Some KVS_STATUS_INVALID_KEY, s)"
proof -
  have find: "kvs_find_entry s t 0 status = Some (None, Some KVS_STATUS_ENTRY_NOT_FOUND, s)"
    by (rule kvs_find_entry_miss [OF assms kvs_inv_zero_key [OF assms]])
  show ?thesis
    by (simp add: find kvs_entry_exists_def kvs_get_entry_def kvs_value_for_key_def
        kvs_reference_for_key_def kvs_size_for_key_def kvs_reference_count_for_key_def
        kvs_release_entry_def kvs_store_value_def kvs_store_reference_def
        kvs_remove_entry_def kvs_set_status_def)
qed

theorem kvs_zero_key_lookup_witness:
  "kvs_inv kvs_example 100 kvs_example_chains \<and>
   kvs_entry_exists kvs_example (Some 100) 0 None
     = Some (False, Some KVS_STATUS_ENTRY_NOT_FOUND, kvs_example) \<and>
   kvs_release_entry kvs_example (Some 100) 0 None
     = Some (Some KVS_STATUS_ENTRY_NOT_FOUND, kvs_example) \<and>
   kvs_remove_entry kvs_example (Some 100) 0 None
     = Some (Some KVS_STATUS_INVALID_KEY, kvs_example)"
  using kvs_zero_key_lookup [OF kvs_example_inv, of None] kvs_example_inv by simp

text \<open>C3, as amended.  \<open>kvs_reference_for_key\<close> does modify the reference count: on a
  well-formed table, for a key whose entry is live, it returns the entry's value pointer
  with \<open>KVS_STATUS_SUCCESS\<close> and leaves the entry with its \<open>ref_count\<close> incremented by one
  modulo the width of \<open>word_t\<close> (one higher, unless the count was the largest value of
  \<open>word_t\<close>, which the increment takes to 0), and \<open>kvs_get_entry\<close> with \<open>copy = false\<close>
  returns the same pointer and ends in the very same heap.  The two entry points do not
  differ in their effect on the counter.\<close>

theorem kvs_reference_increments:
  fixes s :: "'w::len word kvs_heap"
  assumes "kvs_inv s t cs"
    and "a \<in> set (cs ! (unat k mod length cs))"
    and "entries s a = Some e" and "key e = k" and "\<not> marked_for_removal e"
  shows "\<exists>s' e'. kvs_reference_for_key s (Some t) k status
                = Some (value' e, Some KVS_STATUS_SUCCESS, s') \<and>
              kvs_get_entry s (Some t) False k status new_entry copy_alloc
                = Some (value' e, Some (size' e), Some (null_terminated e),
                        Some KVS_STATUS_SUCCESS, s') \<and>
              entries s' a = Some e' \<and> e' = e\<lparr>ref_count := ref_count e + 1\<rparr> \<and>
              unat (ref_count e') = (unat (ref_count e) + 1) mod 2 ^ LENGTH('w) \<and>
              (ref_count e + 1 \<noteq> 0 \<longrightarrow> unat (ref_count e') = unat (ref_count e) + 1) \<and>
              (ref_count e + 1 = 0 \<longrightarrow> unat (ref_count e) = 2 ^ LENGTH('w) - 1)"
proof -
  have "entries (kvs_referenced s t a) a = Some (e\<lparr>ref_count := ref_count e + 1\<rparr>)"
    using assms(3) by (simp add: kvs_referenced_def)
  moreover have "unat (ref_count e + 1) = (unat (ref_count e) + 1) mod 2 ^ LENGTH('w)"
    by (rule kvs_word_succ(1))
  moreover have "ref_count e + 1 \<noteq> 0 \<Longrightarrow> unat (ref_count e + 1) = unat (ref_count e) + 1"
    by (rule kvs_word_succ(2))
  moreover have "ref_count e + 1 = 0 \<Longrightarrow> unat (ref_count e) = 2 ^ LENGTH('w) - 1"
    by (rule kvs_word_succ(3))
  ultimately show ?thesis
    using kvs_reference_for_key_live [OF assms] kvs_get_entry_reference_live [OF assms]
    by simp
qed

theorem kvs_reference_increments_witness:
  "kvs_inv kvs_example 100 kvs_example_chains \<and>
   200 \<in> set (kvs_example_chains ! (unat (2 :: kvs_key_t) mod length kvs_example_chains)) \<and>
   (\<exists>e. entries kvs_example 200 = Some e \<and> key e = 2 \<and> \<not> marked_for_removal e \<and>
     ref_count e = 1 \<and>
     (\<exists>s' e'. kvs_reference_for_key kvs_example (Some 100) 2 None
              = Some (value' e, Some KVS_STATUS_SUCCESS, s') \<and>
           kvs_get_entry kvs_example (Some 100) False 2 None None None
              = Some (value' e, Some (size' e), Some (null_terminated e),
                      Some KVS_STATUS_SUCCESS, s') \<and>
           entries s' 200 = Some e' \<and> e' = e\<lparr>ref_count := ref_count e + 1\<rparr> \<and>
           unat (ref_count e') = 2))"
proof -
  have mem: "200 \<in> set (kvs_example_chains !
      (unat (2 :: kvs_key_t) mod length kvs_example_chains))"
    unfolding kvs_example_bucket by simp
  obtain e where e: "entries kvs_example 200 = Some e" "key e = 2" "\<not> marked_for_removal e"
    "ref_count e = 1"
    by (simp add: kvs_example_def)
  from kvs_reference_increments [OF kvs_example_inv mem e(1-3), of None None None]
  obtain s' e' where r:
    "kvs_reference_for_key kvs_example (Some 100) 2 None
       = Some (value' e, Some KVS_STATUS_SUCCESS, s')"
    "kvs_get_entry kvs_example (Some 100) False 2 None None None
       = Some (value' e, Some (size' e), Some (null_terminated e),
               Some KVS_STATUS_SUCCESS, s')"
    "entries s' 200 = Some e'" "e' = e\<lparr>ref_count := ref_count e + 1\<rparr>"
    by blast
  from r(4) e(4) have "unat (ref_count e') = 2" by simp
  with r kvs_example_inv mem e show ?thesis by blast
qed

text \<open>C3 as stated fails: in the example table the entry of key 2 has reference count 1
  before a successful \<open>kvs_reference_for_key\<close> and 2 after it.\<close>

theorem kvs_reference_for_key_counterexample:
  "kvs_reference_for_key kvs_example (Some 100) 2 None
     = Some (Some 5000, Some KVS_STATUS_SUCCESS, kvs_referenced kvs_example 100 200) \<and>
   map_option ref_count (entries kvs_example 200) = Some 1 \<and>
   map_option ref_count (entries (kvs_referenced kvs_example 100 200) 200) = Some 2 \<and>
   map_option ref_count (entries (kvs_referenced kvs_example 100 200) 200)
     \<noteq> map_option ref_count (entries kvs_example 200)"
  by (simp add: kvs_reference_for_key_def kvs_find_entry_def kvs_bucket_index_def
      kvs_bucket_at_def kvs_chain_scan.simps kvs_update_table_def kvs_update_entry_def
      kvs_set_status_def kvs_referenced_def kvs_cached_def kvs_example_def)

text \<open>C4.  On a well-formed table, for a key \<open>k \<noteq> 0\<close> that no entry of its bucket's chain
  carries, a size \<open>n \<noteq> 0\<close> and a successful allocation of the entry at a free address \<open>a\<close>:
  \<open>kvs_store_reference\<close> with \<open>null_terminated = false\<close> succeeds, a following
  \<open>kvs_reference_for_key\<close> returns the very pointer \<open>v\<close> that was stored, and
  \<open>kvs_reference_count_for_key\<close> then returns 2 (the counter being at least two bits
  wide).\<close>

theorem kvs_store_reference_then_reference:
  fixes s :: "'w::len word kvs_heap"
  assumes inv: "kvs_inv s t cs"
    and k: "k \<noteq> 0"
    and fresh: "\<forall>x\<in>set (cs ! (unat k mod length cs)). kvs_key_of (entries s) x \<noteq> k"
    and n: "n \<noteq> 0"
    and a: "entries s a = None"
    and w: "1 < LENGTH('w)"
  shows "\<exists>s1 s2 s3.
           kvs_store_reference s (Some t) k (Some v) n False status data_rep (Some a)
             = Some (Some KVS_STATUS_SUCCESS, s1) \<and>
           kvs_reference_for_key s1 (Some t) k status1
             = Some (Some v, Some KVS_STATUS_SUCCESS, s2) \<and>
           kvs_reference_count_for_key s2 (Some t) k status2
             = Some (2, Some KVS_STATUS_SUCCESS, s3)"
proof -
  let ?i = "unat k mod length cs"
  let ?cs' = "cs[?i := cs ! ?i @ [a]]"
  define new :: "'w word kvs_entry_s" where
    "new = \<lparr>key = k, value' = Some v, size' = n, next' = None, ref_count = 1,
            null_terminated = False, marked_for_removal = False\<rparr>"
  define mk where "mk = (\<lambda>s' :: 'w word kvs_heap.
      kvs_new_entry_with_ref s' k v n False None (Some a))"
  from kvs_inv_table [OF inv] obtain T where T: "tables s t = Some T" by blast
  have mk: "mk s = Some (Some a, Some KVS_STATUS_SUCCESS, s\<lparr>entries := (entries s)(a \<mapsto> new)\<rparr>)"
    by (simp add: mk_def kvs_new_entry_with_ref_def kvs_set_status_def new_def)
  have "\<exists>s'. kvs_store_link s t k status mk = Some (Some KVS_STATUS_SUCCESS, s') \<and>
          kvs_inv s' t ?cs' \<and> entries s' a = Some new \<and>
          blocks s' = blocks (s\<lparr>entries := (entries s)(a \<mapsto> new)\<rparr>) \<and>
          bytes s' = bytes (s\<lparr>entries := (entries s)(a \<mapsto> new)\<rparr>) \<and>
          map_option entry_count (tables s' t) = Some (entry_count T + 1)"
    by (rule kvs_store_link_fresh [where mk = mk and s = s, OF inv k fresh mk _ _ _ _ a T])
      (simp_all add: new_def)
  then obtain s1 where link: "kvs_store_link s t k status mk = Some (Some KVS_STATUS_SUCCESS, s1)"
    and inv1: "kvs_inv s1 t ?cs'" and new1: "entries s1 a = Some new"
    by blast
  have store: "kvs_store_reference s (Some t) k (Some v) n False status data_rep (Some a)
                 = Some (Some KVS_STATUS_SUCCESS, s1)"
    using k n link by (simp add: kvs_store_reference_def mk_def)
  have len: "length ?cs' = length cs" by simp
  have mem: "a \<in> set (?cs' ! (unat k mod length ?cs'))"
    using kvs_inv_index(2) [OF inv T, of k] by simp
  have knew: "key new = k" "\<not> marked_for_removal new" "value' new = Some v"
    by (simp_all add: new_def)
  note ref = kvs_reference_for_key_live [OF inv1 mem new1 knew(1,2), of status1]
  let ?s2 = "kvs_referenced s1 t a"
  have inv2: "kvs_inv ?s2 t ?cs'"
    by (rule kvs_inv_referenced [OF inv1 kvs_inv_entry [OF inv1 mem]])
  have e2: "entries ?s2 a = Some (new\<lparr>ref_count := ref_count new + 1\<rparr>)"
    using new1 by (simp add: kvs_referenced_def)
  have cnt: "kvs_reference_count_for_key ?s2 (Some t) k status2
      = Some (ucast (ref_count (new\<lparr>ref_count := ref_count new + 1\<rparr>)),
              Some KVS_STATUS_SUCCESS, kvs_cached ?s2 t (Some a))"
    by (rule kvs_reference_count_for_key_hit [OF inv2 mem e2]) (simp add: new_def)
  have "(ucast (ref_count (new\<lparr>ref_count := ref_count new + 1\<rparr>)) :: cardinal) = 2"
    using kvs_ucast_two [OF w] by (simp add: new_def)
  with store ref cnt knew(3) show ?thesis by auto
qed

theorem kvs_store_reference_then_reference_witness:
  "kvs_inv kvs_example 100 kvs_example_chains \<and> (6 :: kvs_key_t) \<noteq> 0 \<and>
   kvs_example_chains ! (unat (6 :: kvs_key_t) mod length kvs_example_chains) = [200, 201] \<and>
   kvs_key_of (entries kvs_example) 200 \<noteq> 6 \<and>
   kvs_key_of (entries kvs_example) 201 \<noteq> 6 \<and>
   (10 :: cardinal) \<noteq> 0 \<and> entries kvs_example 300 = None \<and> 1 < LENGTH(16) \<and>
   (\<exists>s1 s2 s3.
      kvs_store_reference kvs_example (Some 100) 6 (Some 7000) 10 False None (\<lambda>_. 0) (Some 300)
        = Some (Some KVS_STATUS_SUCCESS, s1) \<and>
      kvs_reference_for_key s1 (Some 100) 6 None
        = Some (Some 7000, Some KVS_STATUS_SUCCESS, s2) \<and>
      kvs_reference_count_for_key s2 (Some 100) 6 None
        = Some (2, Some KVS_STATUS_SUCCESS, s3))"
proof -
  have k: "(6 :: kvs_key_t) \<noteq> 0" by simp
  have fresh: "\<forall>x\<in>set (kvs_example_chains !
      (unat (6 :: kvs_key_t) mod length kvs_example_chains)).
      kvs_key_of (entries kvs_example) x \<noteq> 6"
    unfolding kvs_example_bucket by (simp add: kvs_example_keys)
  have n: "(10 :: cardinal) \<noteq> 0" by simp
  have a: "entries kvs_example 300 = None" by (simp add: kvs_example_def)
  have w: "1 < LENGTH(16)" by simp
  have keys: "kvs_key_of (entries kvs_example) 200 \<noteq> 6"
    "kvs_key_of (entries kvs_example) 201 \<noteq> 6"
    by (simp_all add: kvs_example_keys)
  from kvs_store_reference_then_reference [OF kvs_example_inv k fresh n a w,
      of 7000 None "\<lambda>_. 0" None None]
    kvs_example_inv k kvs_example_bucket(4) keys n a w
  show ?thesis by blast
qed

text \<open>C1 does not hold in the code.  \<open>_kvs_retrieve_copy\<close> takes the bytes to copy from
  \<open>new_entry->value\<close>, \<open>new_entry\<close> being a local that is never assigned, instead of
  \<open>entry->value\<close>.  In the example table, fetching key 2 by copy while that local holds
  the address of the entry of key 3 returns a buffer that starts with the bytes \<open>xy\<close> of
  key 3, not with \<open>ABCD\<close>, the payload stored under key 2 at address 5000; while the local
  holds \<open>NULL\<close> the call has no defined result.\<close>

theorem kvs_value_for_key_wrong_source:
  "map_option (\<lambda>(p, status, s'). (p, status, map (bytes s') [6000, 6001, 6002, 6003]))
     (kvs_value_for_key kvs_example (Some 100) 2 None (Some 202) (Some 6000))
     = Some (Some 6000, Some KVS_STATUS_SUCCESS, [120, 121, 0, 0]) \<and>
   map_option value' (entries kvs_example 200) = Some (Some 5000) \<and>
   map (bytes kvs_example) [5000, 5001, 5002, 5003] = [65, 66, 67, 68] \<and>
   kvs_value_for_key kvs_example (Some 100) 2 None None (Some 6000) = None"
  by (simp add: kvs_value_for_key_def kvs_find_entry_def kvs_bucket_index_def
      kvs_bucket_at_def kvs_chain_scan.simps kvs_update_table_def kvs_retrieve_copy_def
      kvs_copy_loop.simps kvs_set_status_def kvs_example_def)

text \<open>C2 does not hold in the code.  The loop of \<open>kvs_dispose_table\<close> runs \<open>index\<close> up to
  \<open>entry_count\<close>, not up to \<open>bucket_count\<close>.  The table of four buckets with its single
  entry in bucket 3 is disposed of after a look at bucket 0 only: the table object is gone,
  the entry that was linked into the chain of bucket 3 is still allocated.  In the example
  table, with three entries in two buckets, the call has no defined result: the loop is set
  to go on to the chain head \<open>bucket[2]\<close>, which the table does not have, and on its way
  there \<open>_kvs_dispose_entry\<close> frees the caller's memory that the entry of key 4 refers
  to.\<close>

theorem kvs_dispose_table_leak:
  "kvs_dispose_table kvs_example_sparse (Some 100) None
     = Some (Some KVS_STATUS_SUCCESS, kvs_example_sparse\<lparr>tables := Map.empty\<rparr>) \<and>
   kvs_chain (entries kvs_example_sparse) (Some 200) [200] \<and>
   entries (kvs_example_sparse\<lparr>tables := Map.empty\<rparr>) 200 = entries kvs_example_sparse 200 \<and>
   entries kvs_example_sparse 200 \<noteq> None \<and>
   kvs_dispose_table kvs_example (Some 100) None = None"
proof -
  have "kvs_dispose_table kvs_example (Some 100) None = None"
    by (simp add: kvs_dispose_table_def kvs_dispose_buckets_numeral kvs_bucket_at_def
        kvs_dispose_chain.simps kvs_dispose_entry_def kvs_update_table_def
        kvs_set_status_def kvs_example_def)
  then show ?thesis
    by (simp add: kvs_dispose_table_def kvs_bucket_at_def kvs_dispose_chain.simps
        kvs_update_table_def kvs_set_status_def kvs_example_sparse_def)
qed

text \<open>C8 does not hold in the code.  \<open>_kvs_calc_null_terminated_data_size\<close> scans the bytes
  of its own pointer parameter, not the payload: the stored size depends on the address of
  the payload and not on where the payload has its zero byte.  With an eight-byte
  little-endian pointer, the string \<open>hi\<close> at address 4096 (terminator at offset 2) is
  rejected with \<open>KVS_STATUS_INVALID_SIZE\<close> by both store functions, because the lowest
  byte of the address is zero; its tail \<open>i\<close> at address 4097 (terminator at offset 1) is
  stored with size 2, the number of non-zero bytes in the address.\<close>

theorem kvs_store_size_from_pointer:
  "map (bytes kvs_example) [4096, 4097, 4098] = [104, 105, 0] \<and>
   kvs_store_value kvs_example (Some 100) 5 (Some 4096) 0 True None (kvs_pointer_rep 4096)
       (Some 300) (Some 6000)
     = Some (Some KVS_STATUS_INVALID_SIZE, kvs_example) \<and>
   kvs_store_reference kvs_example (Some 100) 5 (Some 4096) 0 True None (kvs_pointer_rep 4096)
       (Some 300)
     = Some (Some KVS_STATUS_INVALID_SIZE, kvs_example) \<and>
   map_option (\<lambda>(status, s'). (status, map_option size' (entries s' 300)))
     (kvs_store_reference kvs_example (Some 100) 5 (Some 4097) 0 True None
        (kvs_pointer_rep 4097) (Some 300))
     = Some (Some KVS_STATUS_SUCCESS, Some 2)"
  by (simp add: kvs_store_value_def kvs_store_reference_def kvs_pointer_rep_4096
      kvs_pointer_rep_4097 kvs_store_link_def kvs_bucket_index_def kvs_bucket_at_def
      kvs_chain_scan.simps kvs_new_entry_with_ref_def kvs_update_table_def
      kvs_update_entry_def kvs_set_status_def kvs_example_def)

text \<open>C9, as amended.  On a well-formed table.  Stores: when the allocation of the entry, or
  of the buffer for the copied value (the entry having been allocated at a free address),
  fails in \<open>kvs_store_value\<close>, or the allocation of the entry fails in
  \<open>kvs_store_reference\<close>, for a key that is not 0 and not yet stored and a size that passes
  the size checks, the call reports \<open>KVS_STATUS_ALLOCATION_FAILED\<close> and returns the heap it
  was given, the entry allocated for the call being released again.  Retrievals: when the
  allocation of the buffer fails in a retrieval by copy (\<open>kvs_value_for_key\<close>, or
  \<open>kvs_get_entry\<close> with \<open>copy = true\<close>) of a live entry of known size, the call returns
  \<open>NULL\<close> with \<open>KVS_STATUS_ALLOCATION_FAILED\<close> and leaves entries, buckets, chains and
  \<open>entry_count\<close> as they were, but the lookup that came first has made the entry the cached
  one: the heap returned is \<open>kvs_cached s t (Some a)\<close>.  Neither half depends on the
  other: the stores need no entry in the table, the retrievals no key that is free.\<close>

theorem kvs_allocation_failure:
  fixes s :: "'w::len word kvs_heap"
  assumes inv: "kvs_inv s t cs"
  shows "(k \<noteq> 0 \<and>
          (\<forall>x\<in>set (cs ! (unat k mod length cs)). kvs_key_of (entries s) x \<noteq> k) \<and>
          (sz \<noteq> 0 \<or> (nt \<and> kvs_calc_null_terminated_data_size data_rep \<noteq> 0)) \<and>
          (entry_alloc = None \<or>
           (value_alloc = None \<and> (\<forall>n. entry_alloc = Some n \<longrightarrow> entries s n = None)))
          \<longrightarrow>
          kvs_store_value s (Some t) k (Some v) sz nt status data_rep entry_alloc value_alloc
            = Some (Some KVS_STATUS_ALLOCATION_FAILED, s) \<and>
          kvs_store_reference s (Some t) k (Some v) sz nt status data_rep None
            = Some (Some KVS_STATUS_ALLOCATION_FAILED, s)) \<and>
         (a \<in> set (cs ! (unat k' mod length cs)) \<and> entries s a = Some e \<and> key e = k' \<and>
          \<not> marked_for_removal e \<and> size' e \<noteq> 0
          \<longrightarrow>
          kvs_value_for_key s (Some t) k' status new_entry None
            = Some (None, Some KVS_STATUS_ALLOCATION_FAILED, kvs_cached s t (Some a)) \<and>
          kvs_get_entry s (Some t) True k' status new_entry None
            = Some (None, Some (size' e), Some (null_terminated e),
                    Some KVS_STATUS_ALLOCATION_FAILED, kvs_cached s t (Some a)))"
proof (intro conjI impI)
  assume h: "k \<noteq> 0 \<and>
      (\<forall>x\<in>set (cs ! (unat k mod length cs)). kvs_key_of (entries s) x \<noteq> k) \<and>
      (sz \<noteq> 0 \<or> (nt \<and> kvs_calc_null_terminated_data_size data_rep \<noteq> 0)) \<and>
      (entry_alloc = None \<or>
       (value_alloc = None \<and> (\<forall>n. entry_alloc = Some n \<longrightarrow> entries s n = None)))"
  then have k: "k \<noteq> 0"
    and fresh: "\<forall>x\<in>set (cs ! (unat k mod length cs)). kvs_key_of (entries s) x \<noteq> k"
    and sz: "sz \<noteq> 0 \<or> (nt \<and> kvs_calc_null_terminated_data_size data_rep \<noteq> 0)"
    and alloc: "entry_alloc = None \<or>
                (value_alloc = None \<and> (\<forall>n. entry_alloc = Some n \<longrightarrow> entries s n = None))"
    by simp_all
  have copy: "kvs_store_link s t k status
        (\<lambda>s'. kvs_new_entry_with_copy s' k v z b None entry_alloc value_alloc)
      = Some (Some KVS_STATUS_ALLOCATION_FAILED, s)" for z b
    by (rule kvs_store_link_no_entry [OF inv fresh])
      (rule kvs_new_entry_with_copy_failed [OF alloc])
  have ref: "kvs_store_link s t k status
        (\<lambda>s'. kvs_new_entry_with_ref s' k v z b None None)
      = Some (Some KVS_STATUS_ALLOCATION_FAILED, s)" for z b
    by (rule kvs_store_link_no_entry [OF inv fresh])
      (simp add: kvs_new_entry_with_ref_def kvs_set_status_def)
  show "kvs_store_value s (Some t) k (Some v) sz nt status data_rep entry_alloc value_alloc
           = Some (Some KVS_STATUS_ALLOCATION_FAILED, s)"
    using k sz by (auto simp: kvs_store_value_def copy Let_def)
  show "kvs_store_reference s (Some t) k (Some v) sz nt status data_rep None
           = Some (Some KVS_STATUS_ALLOCATION_FAILED, s)"
    using k sz by (auto simp: kvs_store_reference_def ref Let_def)
next
  assume h: "a \<in> set (cs ! (unat k' mod length cs)) \<and> entries s a = Some e \<and> key e = k' \<and>
      \<not> marked_for_removal e \<and> size' e \<noteq> 0"
  then have a: "a \<in> set (cs ! (unat k' mod length cs))"
    and e: "entries s a = Some e" "key e = k'" "\<not> marked_for_removal e" "size' e \<noteq> 0"
    by blast+
  from e have ka: "kvs_key_of (entries s) a = k'" by (simp add: kvs_key_of_def)
  note find = kvs_find_entry_hit [OF inv a ka, of status]
  show "kvs_value_for_key s (Some t) k' status new_entry None
           = Some (None, Some KVS_STATUS_ALLOCATION_FAILED, kvs_cached s t (Some a))"
    by (simp add: kvs_value_for_key_def find e kvs_retrieve_copy_def kvs_set_status_def)
next
  assume h: "a \<in> set (cs ! (unat k' mod length cs)) \<and> entries s a = Some e \<and> key e = k' \<and>
      \<not> marked_for_removal e \<and> size' e \<noteq> 0"
  then have a: "a \<in> set (cs ! (unat k' mod length cs))"
    and e: "entries s a = Some e" "key e = k'" "\<not> marked_for_removal e" "size' e \<noteq> 0"
    by blast+
  from e have ka: "kvs_key_of (entries s) a = k'" by (simp add: kvs_key_of_def)
  note find = kvs_find_entry_hit [OF inv a ka, of status]
  show "kvs_get_entry s (Some t) True k' status new_entry None
           = Some (None, Some (size' e), Some (null_terminated e),
                   Some KVS_STATUS_ALLOCATION_FAILED, kvs_cached s t (Some a))"
    by (simp add: kvs_get_entry_def find e kvs_retrieve_copy_def kvs_set_status_def)
qed

text \<open>The store half applies to the table of four buckets without entries, and both halves
  to the example table.\<close>

theorem kvs_allocation_failure_witness:
  "kvs_inv kvs_example_fresh 100 [[], [], [], []] \<and> entries kvs_example_fresh = Map.empty \<and>
   kvs_store_value kvs_example_fresh (Some 100) 5 (Some 7000) 2 False None (\<lambda>_. 0)
       (Some 200) None
     = Some (Some KVS_STATUS_ALLOCATION_FAILED, kvs_example_fresh) \<and>
   kvs_store_reference kvs_example_fresh (Some 100) 5 (Some 7000) 2 False None (\<lambda>_. 0) None
     = Some (Some KVS_STATUS_ALLOCATION_FAILED, kvs_example_fresh) \<and>
   kvs_inv kvs_example 100 kvs_example_chains \<and> (6 :: kvs_key_t) \<noteq> 0 \<and>
   kvs_example_chains ! (unat (6 :: kvs_key_t) mod length kvs_example_chains) = [200, 201] \<and>
   kvs_key_of (entries kvs_example) 200 \<noteq> 6 \<and>
   kvs_key_of (entries kvs_example) 201 \<noteq> 6 \<and>
   (3 :: cardinal) \<noteq> 0 \<and> entries kvs_example 300 = None \<and>
   200 \<in> set (kvs_example_chains ! (unat (2 :: kvs_key_t) mod length kvs_example_chains)) \<and>
   map_option key (entries kvs_example 200) = Some 2 \<and>
   map_option marked_for_removal (entries kvs_example 200) = Some False \<and>
   map_option size' (entries kvs_example 200) = Some 4 \<and>
   kvs_store_value kvs_example (Some 100) 6 (Some 7000) 3 False None (\<lambda>_. 0) (Some 300) None
     = Some (Some KVS_STATUS_ALLOCATION_FAILED, kvs_example) \<and>
   kvs_store_reference kvs_example (Some 100) 6 (Some 7000) 3 False None (\<lambda>_. 0) None
     = Some (Some KVS_STATUS_ALLOCATION_FAILED, kvs_example) \<and>
   kvs_value_for_key kvs_example (Some 100) 2 None None None
     = Some (None, Some KVS_STATUS_ALLOCATION_FAILED, kvs_cached kvs_example 100 (Some 200)) \<and>
   kvs_get_entry kvs_example (Some 100) True 2 None None None
     = Some (None, Some 4, Some False, Some KVS_STATUS_ALLOCATION_FAILED,
             kvs_cached kvs_example 100 (Some 200))"
proof -
  have k: "(6 :: kvs_key_t) \<noteq> 0" by simp
  have fresh: "\<forall>x\<in>set (kvs_example_chains !
      (unat (6 :: kvs_key_t) mod length kvs_example_chains)).
      kvs_key_of (entries kvs_example) x \<noteq> 6"
    unfolding kvs_example_bucket by (simp add: kvs_example_keys)
  have keys: "kvs_key_of (entries kvs_example) 200 \<noteq> 6"
    "kvs_key_of (entries kvs_example) 201 \<noteq> 6"
    by (simp_all add: kvs_example_keys)
  have free: "entries kvs_example 300 = None" by (simp add: kvs_example_def)
  have mem: "200 \<in> set (kvs_example_chains !
      (unat (2 :: kvs_key_t) mod length kvs_example_chains))"
    unfolding kvs_example_bucket by simp
  obtain e where e: "entries kvs_example 200 = Some e" "key e = 2" "\<not> marked_for_removal e"
    "size' e \<noteq> 0" "size' e = 4" "null_terminated e = False"
    by (simp add: kvs_example_def)
  have finv: "kvs_inv kvs_example_fresh 100 [[], [], [], []]"
    by (simp add: kvs_example_fresh_def kvs_inv_def kvs_bucket_ok_def All_less_Suc)
  have fent: "entries kvs_example_fresh = Map.empty" by (simp add: kvs_example_fresh_def)
  have ffresh: "\<forall>x\<in>set ([[], [], [], []] ! (unat (5 :: kvs_key_t) mod length [[], [], [], []])).
      kvs_key_of (entries kvs_example_fresh) x \<noteq> 5"
    by simp
  from kvs_allocation_failure [OF finv,
      where k = 5 and sz = 2 and nt = False and data_rep = "\<lambda>_. 0"
        and entry_alloc = "Some 200" and value_alloc = None and v = 7000 and status = None]
    ffresh fent
  have store0: "kvs_store_value kvs_example_fresh (Some 100) 5 (Some 7000) 2 False None
        (\<lambda>_. 0) (Some 200) None
      = Some (Some KVS_STATUS_ALLOCATION_FAILED, kvs_example_fresh)"
    "kvs_store_reference kvs_example_fresh (Some 100) 5 (Some 7000) 2 False None (\<lambda>_. 0) None
      = Some (Some KVS_STATUS_ALLOCATION_FAILED, kvs_example_fresh)"
    by simp_all
  from kvs_allocation_failure [OF kvs_example_inv,
      where k = 6 and sz = 3 and nt = False and data_rep = "\<lambda>_. 0"
        and entry_alloc = "Some 300" and value_alloc = None and v = 7000 and status = None
        and a = 200 and k' = 2 and e = e and new_entry = None]
    fresh free mem e
  have both: "kvs_store_value kvs_example (Some 100) 6 (Some 7000) 3 False None (\<lambda>_. 0)
        (Some 300) None
      = Some (Some KVS_STATUS_ALLOCATION_FAILED, kvs_example)"
    "kvs_store_reference kvs_example (Some 100) 6 (Some 7000) 3 False None (\<lambda>_. 0) None
      = Some (Some KVS_STATUS_ALLOCATION_FAILED, kvs_example)"
    "kvs_value_for_key kvs_example (Some 100) 2 None None None
      = Some (None, Some KVS_STATUS_ALLOCATION_FAILED, kvs_cached kvs_example 100 (Some 200))"
    "kvs_get_entry kvs_example (Some 100) True 2 None None None
      = Some (None, Some 4, Some False, Some KVS_STATUS_ALLOCATION_FAILED,
              kvs_cached kvs_example 100 (Some 200))"
    by simp_all
  from finv fent store0 kvs_example_inv k kvs_example_bucket(4) keys free mem e both
  show ?thesis by simp
qed

text \<open>C9 as stated fails for the lookup cache: in the example table the cache is empty
  before \<open>kvs_value_for_key\<close> is called for key 2 with the allocation failing, and holds the
  entry of key 2 afterwards.\<close>

theorem kvs_allocation_failure_counterexample:
  "kvs_value_for_key kvs_example (Some 100) 2 None None None
     = Some (None, Some KVS_STATUS_ALLOCATION_FAILED, kvs_cached kvs_example 100 (Some 200)) \<and>
   map_option last_retrieved_entry (tables kvs_example 100) = Some None \<and>
   map_option last_retrieved_entry (tables (kvs_cached kvs_example 100 (Some 200)) 100)
     = Some (Some 200) \<and>
   kvs_cached kvs_example 100 (Some 200) \<noteq> kvs_example"
proof -
  have run: "kvs_value_for_key kvs_example (Some 100) 2 None None None
     = Some (None, Some KVS_STATUS_ALLOCATION_FAILED, kvs_cached kvs_example 100 (Some 200))"
    by (simp add: kvs_value_for_key_def kvs_find_entry_def kvs_bucket_index_def
        kvs_bucket_at_def kvs_chain_scan.simps kvs_update_table_def kvs_retrieve_copy_def
        kvs_set_status_def kvs_cached_def kvs_example_def)
  have before: "map_option last_retrieved_entry (tables kvs_example 100) = Some None"
    by (simp add: kvs_example_def)
  have after: "map_option last_retrieved_entry
      (tables (kvs_cached kvs_example 100 (Some 200)) 100) = Some (Some 200)"
    by (simp add: kvs_cached_def kvs_example_def)
  from before after have "kvs_cached kvs_example 100 (Some 200) \<noteq> kvs_example"
    by (metis option.inject option.distinct(1))
  with run before after show ?thesis by blast
qed




text \<open>C6, as amended.  Reference-count floor.  In every heap reached through the public
  functions from a heap in which no entry has been stored yet, as long as no retrieval by
  reference is made for a key whose counter is at the largest value of \<open>word_t\<close>, every
  entry linked into a bucket chain of a well-formed table has \<open>ref_count \<ge> 1\<close>.
  \<open>kvs_release_entry\<close> called for such an entry while its count is 1 reports success and
  changes nothing but the lookup cache of the table, which now holds the entry: no entry is
  written, so no decrement occurs; the entry stays linked; and a retrieval by reference of
  its key answers as it would have answered without the call, with the value of the entry
  unless the entry is marked for removal.\<close>

theorem kvs_reference_count_floor:
  assumes "kvs_reachable s" and "kvs_inv s t cs" and "a \<in> set (concat cs)"
    and "entries s a = Some e"
  shows "1 \<le> ref_count e \<and>
         (ref_count e = 1 \<longrightarrow>
            kvs_release_entry s (Some t) (key e) status
              = Some (Some KVS_STATUS_SUCCESS, kvs_cached s t (Some a)) \<and>
            entries (kvs_cached s t (Some a)) = entries s \<and>
            kvs_inv (kvs_cached s t (Some a)) t cs \<and>
            kvs_reference_for_key (kvs_cached s t (Some a)) (Some t) (key e) status'
              = kvs_reference_for_key s (Some t) (key e) status' \<and>
            (\<not> marked_for_removal e \<longrightarrow>
               kvs_reference_for_key (kvs_cached s t (Some a)) (Some t) (key e) status'
                 = Some (value' e, Some KVS_STATUS_SUCCESS, kvs_referenced s t a)))"
proof -
  from kvs_reachable_counts [OF assms(1)] assms(4) have floor: "1 \<le> ref_count e"
    by (auto simp: kvs_counts_ok_def)
  have k: "kvs_key_of (entries s) a = key e" by (simp add: kvs_key_of_def assms(4))
  from kvs_inv_member(1) [OF assms(2,3)]
  have mem: "a \<in> set (cs ! (unat (key e) mod length cs))" unfolding k .
  have inv': "kvs_inv (kvs_cached s t (Some a)) t cs"
    using assms(3) by (intro kvs_inv_cached [OF assms(2)]) simp
  have e': "entries (kvs_cached s t (Some a)) a = Some e" by (simp add: assms(4))
  have rel: "ref_count e = 1 \<Longrightarrow> kvs_release_entry s (Some t) (key e) status
      = Some (Some KVS_STATUS_SUCCESS, kvs_cached s t (Some a))"
    by (rule kvs_release_entry_floor [OF assms(2) mem assms(4)]) simp_all
  have before: "kvs_reference_for_key s (Some t) (key e) status'
      = Some (if marked_for_removal e
              then (None, Some KVS_STATUS_ENTRY_PENDING_REMOVAL, kvs_cached s t (Some a))
              else (value' e, Some KVS_STATUS_SUCCESS, kvs_referenced s t a))"
    by (rule kvs_reference_for_key_hit [OF assms(2) mem assms(4)]) simp
  have after: "kvs_reference_for_key (kvs_cached s t (Some a)) (Some t) (key e) status'
      = Some (if marked_for_removal e
              then (None, Some KVS_STATUS_ENTRY_PENDING_REMOVAL, kvs_cached s t (Some a))
              else (value' e, Some KVS_STATUS_SUCCESS, kvs_referenced s t a))"
    using kvs_reference_for_key_hit [OF inv' mem e', of status'] by simp
  have same: "kvs_reference_for_key (kvs_cached s t (Some a)) (Some t) (key e) status'
      = kvs_reference_for_key s (Some t) (key e) status'"
    unfolding before after ..
  have live: "\<not> marked_for_removal e \<Longrightarrow>
      kvs_reference_for_key (kvs_cached s t (Some a)) (Some t) (key e) status'
        = Some (value' e, Some KVS_STATUS_SUCCESS, kvs_referenced s t a)"
    unfolding after by simp
  have ent: "entries (kvs_cached s t (Some a)) = entries s" by simp
  from floor rel ent inv' same live show ?thesis by blast
qed

text \<open>The theorem applies to the heap that one \<open>kvs_store_value\<close> for key 5 makes of the
  table of four buckets without entries.\<close>

theorem kvs_reference_count_floor_witness:
  "kvs_reachable kvs_example_stored \<and>
   kvs_inv kvs_example_stored 100 kvs_example_stored_chains \<and>
   concat kvs_example_stored_chains = [200] \<and>
   map_option ref_count (entries kvs_example_stored 200) = Some 1 \<and>
   kvs_release_entry kvs_example_stored (Some 100) 5 None
     = Some (Some KVS_STATUS_SUCCESS, kvs_cached kvs_example_stored 100 (Some 200)) \<and>
   entries (kvs_cached kvs_example_stored 100 (Some 200)) = entries kvs_example_stored \<and>
   kvs_inv (kvs_cached kvs_example_stored 100 (Some 200)) 100 kvs_example_stored_chains \<and>
   kvs_reference_for_key (kvs_cached kvs_example_stored 100 (Some 200)) (Some 100) 5 None
     = kvs_reference_for_key kvs_example_stored (Some 100) 5 None \<and>
   kvs_reference_for_key (kvs_cached kvs_example_stored 100 (Some 200)) (Some 100) 5 None
     = Some (Some 5000, Some KVS_STATUS_SUCCESS,
             kvs_referenced kvs_example_stored 100 200)"
proof -
  have c: "concat kvs_example_stored_chains = [200]"
    by (simp add: kvs_example_stored_chains_def)
  have a: "200 \<in> set (concat kvs_example_stored_chains)" unfolding c by simp
  have e: "entries kvs_example_stored 200
             = Some \<lparr>key = 5, value' = Some 5000, size' = 2, next' = None,
                     ref_count = 1, null_terminated = False, marked_for_removal = False\<rparr>"
    by (simp add: kvs_example_stored_def)
  from kvs_reference_count_floor
    [OF kvs_example_stored_reachable kvs_example_stored_inv a e, of None None]
  show ?thesis
    by (auto simp add: kvs_example_stored_reachable kvs_example_stored_inv c e)
qed

text \<open>C6 as stated fails in two ways, both shown on the heap that one \<open>kvs_store_value\<close>
  for key 5 makes of the table of four buckets without entries, with a \<open>word_t\<close> of 16
  bits.  \<open>kvs_release_entry\<close> for key 5, whose count is 1, returns a heap that differs from
  the one it was given: the lookup cache holds the entry.  And 65535 calls of
  \<open>kvs_reference_for_key\<close> for key 5, none of which is refused, take the unchecked counter
  from 1 over 65535 to 0, while the entry is still the head of bucket 1.\<close>

theorem kvs_reference_count_counterexample:
  "entries kvs_example_fresh = Map.empty \<and>
   kvs_store_value kvs_example_fresh (Some 100) 5 (Some 7000) 2 False None
       (kvs_pointer_rep 7000) (Some 200) (Some 5000)
     = Some (Some KVS_STATUS_SUCCESS, kvs_example_stored) \<and>
   map_option ref_count (entries kvs_example_stored 200) = Some 1 \<and>
   kvs_release_entry kvs_example_stored (Some 100) 5 None
     = Some (Some KVS_STATUS_SUCCESS,
             kvs_example_stored
               \<lparr>tables := [100 \<mapsto> \<lparr>last_retrieved_entry = Some 200, entry_count = 1,
                                    bucket_count = 4,
                                    bucket = [None, Some 200, None, None]\<rparr>]\<rparr>) \<and>
   kvs_example_stored
     \<lparr>tables := [100 \<mapsto> \<lparr>last_retrieved_entry = Some 200, entry_count = 1,
                          bucket_count = 4, bucket = [None, Some 200, None, None]\<rparr>]\<rparr>
     \<noteq> kvs_example_stored \<and>
   kvs_reference_repeat 65535 kvs_example_stored (Some 100) 5
     = Some (kvs_example_stored
         \<lparr>tables := [100 \<mapsto> \<lparr>last_retrieved_entry = Some 200, entry_count = 1,
                              bucket_count = 4, bucket = [None, Some 200, None, None]\<rparr>],
          entries := [200 \<mapsto> \<lparr>key = 5, value' = Some 5000, size' = 2, next' = None,
                               ref_count = 0, null_terminated = False,
                               marked_for_removal = False\<rparr>]\<rparr>)"
proof -
  have a: "200 \<in> set (kvs_example_stored_chains
             ! (unat (5 :: kvs_key_t) mod length kvs_example_stored_chains))"
    unfolding kvs_example_stored_bucket by simp
  have e: "entries kvs_example_stored 200
             = Some \<lparr>key = 5, value' = Some 5000, size' = 2, next' = None,
                     ref_count = 1, null_terminated = False, marked_for_removal = False\<rparr>"
    by (simp add: kvs_example_stored_def)
  have fent: "entries kvs_example_fresh = Map.empty" by (simp add: kvs_example_fresh_def)
  have one: "map_option ref_count (entries kvs_example_stored 200) = Some 1"
    by (simp add: e)
  have rel: "kvs_release_entry kvs_example_stored (Some 100) 5 None
     = Some (Some KVS_STATUS_SUCCESS,
             kvs_example_stored
               \<lparr>tables := [100 \<mapsto> \<lparr>last_retrieved_entry = Some 200, entry_count = 1,
                                    bucket_count = 4,
                                    bucket = [None, Some 200, None, None]\<rparr>]\<rparr>)"
    using kvs_release_entry_floor [OF kvs_example_stored_inv a e, of None]
    by (simp add: kvs_cached_def kvs_example_stored_def)
  have ne: "kvs_example_stored
     \<lparr>tables := [100 \<mapsto> \<lparr>last_retrieved_entry = Some 200, entry_count = 1,
                          bucket_count = 4, bucket = [None, Some 200, None, None]\<rparr>]\<rparr>
     \<noteq> kvs_example_stored"
  proof
    assume "kvs_example_stored
     \<lparr>tables := [100 \<mapsto> \<lparr>last_retrieved_entry = Some 200, entry_count = 1,
                          bucket_count = 4, bucket = [None, Some 200, None, None]\<rparr>]\<rparr>
     = kvs_example_stored"
    then have "tables (kvs_example_stored
     \<lparr>tables := [100 \<mapsto> \<lparr>last_retrieved_entry = Some 200, entry_count = 1,
                          bucket_count = 4, bucket = [None, Some 200, None, None]\<rparr>]\<rparr>) 100
     = tables kvs_example_stored 100" by (rule arg_cong)
    then show False by (simp add: kvs_example_stored_def)
  qed
  from fent kvs_example_stored_run [of "kvs_pointer_rep 7000"] one rel ne
    kvs_reference_repeat_wrap
  show ?thesis by (simp only: simp_thms)
qed

end
